theory Spec2Isabelle
  imports Main "HOL-Library.DAList" "HOL-Library.Multiset"
begin

section \<open>Environments and checkers (rewriter\_utils.py)\<close>

text \<open>
  The environment handed to the checkers is a Python dictionary. Its keys are strings
  (\<^verbatim>\<open>'backend'\<close>, \<^verbatim>\<open>'ir'\<close>, library names); its values are members of the
  \<^verbatim>\<open>Backend\<close> and \<^verbatim>\<open>IR\<close> enumerations, version strings, or \<^verbatim>\<open>None\<close> for a
  library that is not installed. Reading a key that is missing raises \<^verbatim>\<open>KeyError\<close>.
\<close>

text \<open>
  Modelled from the spec: the enumerations \<^verbatim>\<open>Backend\<close> and \<^verbatim>\<open>IR\<close> live in
  \<^verbatim>\<open>mmdeploy.utils.constants\<close>, which is not among the sources. A member is
  represented by its name; \<^verbatim>\<open>DEFAULT\<close> is the member named \<^verbatim>\<open>default\<close>.
\<close>

datatype backend = Backend string

datatype ir = IR string

definition Backend_DEFAULT :: backend where
  "Backend_DEFAULT = Backend ''default''"

definition IR_DEFAULT :: ir where
  "IR_DEFAULT = IR ''default''"

datatype env_value = BackendVal backend | IRVal ir | StrVal string | NoneVal

type_synonym env = "string \<rightharpoonup> env_value"

datatype error =
    KeyError string
  | TypeError
  | InvalidVersion string
  | AssertionError
  | AttributeError string
  | NameError string
  | SyntaxError
  | ValueError

definition env_get :: "env \<Rightarrow> string \<Rightarrow> error + env_value" where
  "env_get env k = (case env k of None \<Rightarrow> Inl (KeyError k) | Some v \<Rightarrow> Inr v)"

subsection \<open>Version strings\<close>

text \<open>\<^verbatim>\<open>str.split(sep)\<close> for a one-character separator: the empty string gives one empty piece.\<close>

fun split_on :: "char \<Rightarrow> string \<Rightarrow> string list" where
  "split_on sep [] = [[]]"
| "split_on sep (c # cs) =
     (if c = sep then [] # split_on sep cs
      else (case split_on sep cs of [] \<Rightarrow> [[c]] | w # ws \<Rightarrow> (c # w) # ws))"

text \<open>
  Modelled from the spec: \<^verbatim>\<open>packaging.version.parse\<close> and the ordering of the versions
  it returns are a third-party library. The spec asks for a comparison that is "parsed,
  not lexicographic"; the model covers plain release versions \<^verbatim>\<open>N(.N)*\<close>, compared as
  tuples of numbers after trailing zeros are dropped (so \<^verbatim>\<open>1.10\<close> equals \<^verbatim>\<open>1.10.0\<close>),
  and reports every other string as \<open>InvalidVersion\<close>.
\<close>

definition digit_of :: "char \<Rightarrow> nat option" where
  "digit_of c =
     (let n = (of_char c :: nat) in if 48 \<le> n \<and> n \<le> 57 then Some (n - 48) else None)"

fun number_of :: "nat \<Rightarrow> string \<Rightarrow> nat option" where
  "number_of acc [] = Some acc"
| "number_of acc (c # cs) =
     (case digit_of c of None \<Rightarrow> None | Some d \<Rightarrow> number_of (10 * acc + d) cs)"

fun segments_of :: "string list \<Rightarrow> nat list option" where
  "segments_of [] = Some []"
| "segments_of (s # ss) =
     (if s = [] then None
      else (case number_of 0 s of
              None \<Rightarrow> None
            | Some n \<Rightarrow> (case segments_of ss of None \<Rightarrow> None | Some ns \<Rightarrow> Some (n # ns))))"

definition strip_zeros :: "nat list \<Rightarrow> nat list" where
  "strip_zeros ns = rev (dropWhile (\<lambda>n. n = 0) (rev ns))"

definition version_parse :: "string \<Rightarrow> error + nat list" where
  "version_parse s =
     (case segments_of (split_on CHR ''.'' s) of
        None \<Rightarrow> Inl (InvalidVersion s)
      | Some ns \<Rightarrow> Inr (strip_zeros ns))"

fun release_less :: "nat list \<Rightarrow> nat list \<Rightarrow> bool" where
  "release_less [] [] = False"
| "release_less [] (y # ys) = True"
| "release_less (x # xs) [] = False"
| "release_less (x # xs) (y # ys) = (x < y \<or> (x = y \<and> release_less xs ys))"

text \<open>\<^verbatim>\<open>version.parse(env[self.lib])\<close>: a value that is not a string is a \<^verbatim>\<open>TypeError\<close>.\<close>

definition parse_value :: "env_value \<Rightarrow> error + nat list" where
  "parse_value v = (case v of StrVal s \<Rightarrow> version_parse s | _ \<Rightarrow> Inl TypeError)"

subsection \<open>The three checkers\<close>

datatype checker =
    BackendChecker backend
  | IRChecker ir
  | LibVersionChecker string "string option" "string option"

text \<open>
  \<^verbatim>\<open>if self.min_version is not None: if parse(env[lib]) < parse(min): valid = False\<close>.
  The result is the new value of \<^verbatim>\<open>valid\<close>; the installed version is parsed first.
\<close>

definition below_min :: "env_value \<Rightarrow> string option \<Rightarrow> error + bool" where
  "below_min v min_version =
     (case min_version of
        None \<Rightarrow> Inr False
      | Some m \<Rightarrow>
          (case parse_value v of
             Inl e \<Rightarrow> Inl e
           | Inr installed \<Rightarrow>
               (case version_parse m of
                  Inl e \<Rightarrow> Inl e
                | Inr wanted \<Rightarrow> Inr (release_less installed wanted))))"

definition above_max :: "env_value \<Rightarrow> string option \<Rightarrow> error + bool" where
  "above_max v max_version =
     (case max_version of
        None \<Rightarrow> Inr False
      | Some m \<Rightarrow>
          (case parse_value v of
             Inl e \<Rightarrow> Inl e
           | Inr installed \<Rightarrow>
               (case version_parse m of
                  Inl e \<Rightarrow> Inl e
                | Inr wanted \<Rightarrow> Inr (release_less wanted installed))))"

fun check :: "checker \<Rightarrow> env \<Rightarrow> error + bool" where
  "check (BackendChecker required_backend) env =
     (case env_get env ''backend'' of
        Inl e \<Rightarrow> Inl e
      | Inr v \<Rightarrow> Inr (v = BackendVal required_backend))"
| "check (IRChecker required_ir) env =
     (case env_get env ''ir'' of
        Inl e \<Rightarrow> Inl e
      | Inr v \<Rightarrow> Inr (v = IRVal required_ir))"
| "check (LibVersionChecker lib min_version max_version) env =
     (case env_get env lib of
        Inl e \<Rightarrow> Inl e
      | Inr v \<Rightarrow>
          if v = NoneVal then Inr False
          else
            (case below_min v min_version of
               Inl e \<Rightarrow> Inl e
             | Inr too_old \<Rightarrow>
                 (case above_max v max_version of
                    Inl e \<Rightarrow> Inl e
                  | Inr too_new \<Rightarrow> Inr (\<not> too_old \<and> \<not> too_new))))"

section \<open>The registry (RewriterRegistry)\<close>

text \<open>
  A function object: its identity, the \<^verbatim>\<open>__module__\<close> and \<^verbatim>\<open>__qualname__\<close> it
  reports, and the identity of its \<^verbatim>\<open>__globals__\<close> dictionary. Two function objects
  are the same object exactly when they are equal as records, which holds as long as
  identities are handed out once (see \<open>copy_function\<close> below).
\<close>

record pyfunc =
  func_id :: nat
  func_module :: string
  func_qualname :: string
  func_globals :: nat

text \<open>
  A record of the registry is the dictionary \<^verbatim>\<open>kwargs\<close> extended with the keys
  \<^verbatim>\<open>'_checkers'\<close> and \<^verbatim>\<open>'_object'\<close>; the remaining keyword arguments are kept as an
  association list.
\<close>

record rewrite_record =
  checkers :: "checker list"
  object :: pyfunc
  kwargs :: "(string \<times> string) list"

text \<open>
  \<^verbatim>\<open>_rewrite_records\<close> is a dictionary from the function path to the list of its
  records. A Python dictionary keeps its keys in insertion order and holds each key once:
  an association list with distinct keys.
\<close>

type_synonym rewriter_registry = "(string, rewrite_record list) alist"

text \<open>
  \<open>_register\<close>, as the decorator of \<open>register_object\<close> calls it. The checkers for the
  backend and the IR go to the end of the list of extra checkers, and the record goes to
  the end of the list of its path. The source appends to the list it was given and stores
  that very list; here every registration has a list of its own, so a list object shared
  by two registrations is not modelled.
\<close>

definition register :: "string \<Rightarrow> backend \<Rightarrow> ir \<Rightarrow> checker list \<Rightarrow> pyfunc \<Rightarrow>
    (string \<times> string) list \<Rightarrow> rewriter_registry \<Rightarrow> rewriter_registry" where
  "register name backend ir extra_checkers obj kw reg =
     (let cs = extra_checkers
             @ (if backend \<noteq> Backend_DEFAULT then [BackendChecker backend] else [])
             @ (if ir \<noteq> IR_DEFAULT then [IRChecker ir] else []);
          record_dict = \<lparr>checkers = cs, object = obj, kwargs = kw\<rparr>
      in DAList.update name
           (case DAList.lookup reg name of
              None \<Rightarrow> [record_dict]
            | Some rs \<Rightarrow> rs @ [record_dict]) reg)"

subsection \<open>get\_records\<close>

text \<open>The inner \<^verbatim>\<open>for checker in checkers\<close> loop with its \<^verbatim>\<open>break\<close>.\<close>

fun all_checks :: "env \<Rightarrow> checker list \<Rightarrow> error + bool" where
  "all_checks env [] = Inr True"
| "all_checks env (c # cs) =
     (case check c env of
        Inl e \<Rightarrow> Inl e
      | Inr ok \<Rightarrow> if ok then all_checks env cs else Inr False)"

definition default_warning :: "string \<Rightarrow> string" where
  "default_warning origin_function =
     ''Detect multiple valid rewriters for '' @ origin_function @ '', use the first rewriter.''"

definition final_warning :: "string \<Rightarrow> string" where
  "final_warning origin_function =
     ''Detect multiple valid rewriters for'' @ origin_function @ '', use the first rewriter.''"

text \<open>
  The loop over the records of one path. The state is \<^verbatim>\<open>default_rewriter\<close>,
  \<^verbatim>\<open>final_rewriter\<close> and the warnings issued so far.
\<close>

fun rewriter_loop :: "env \<Rightarrow> string \<Rightarrow> rewrite_record list \<Rightarrow>
    rewrite_record option \<Rightarrow> rewrite_record option \<Rightarrow> string list \<Rightarrow>
    error + (rewrite_record option \<times> rewrite_record option \<times> string list)" where
  "rewriter_loop env origin_function [] default_rewriter final_rewriter ws =
     Inr (default_rewriter, final_rewriter, ws)"
| "rewriter_loop env origin_function (r # rs) default_rewriter final_rewriter ws =
     (if checkers r = [] then
        (if default_rewriter = None
         then rewriter_loop env origin_function rs (Some r) final_rewriter ws
         else rewriter_loop env origin_function rs default_rewriter final_rewriter
                (ws @ [default_warning origin_function]))
      else
        (case all_checks env (checkers r) of
           Inl e \<Rightarrow> Inl e
         | Inr valid \<Rightarrow>
             if valid then
               (if final_rewriter \<noteq> None
                then rewriter_loop env origin_function rs default_rewriter final_rewriter
                       (ws @ [final_warning origin_function])
                else rewriter_loop env origin_function rs default_rewriter (Some r) ws)
             else rewriter_loop env origin_function rs default_rewriter final_rewriter ws))"

text \<open>The loop over the items of the table, filling \<^verbatim>\<open>default_records\<close> and \<^verbatim>\<open>records\<close>.\<close>

fun records_loop :: "env \<Rightarrow> (string \<times> rewrite_record list) list \<Rightarrow>
    (string \<times> rewrite_record) list \<Rightarrow> (string \<times> rewrite_record) list \<Rightarrow> string list \<Rightarrow>
    error + ((string \<times> rewrite_record) list \<times> (string \<times> rewrite_record) list \<times> string list)" where
  "records_loop env [] default_records records ws = Inr (default_records, records, ws)"
| "records_loop env ((origin_function, rewriter_records) # items) default_records records ws =
     (case rewriter_loop env origin_function rewriter_records None None ws of
        Inl e \<Rightarrow> Inl e
      | Inr (default_rewriter, final_rewriter, ws') \<Rightarrow>
          (case final_rewriter of
             Some r \<Rightarrow>
               records_loop env items default_records (records @ [(origin_function, r)]) ws'
           | None \<Rightarrow>
               (case default_rewriter of
                  Some r \<Rightarrow>
                    records_loop env items (default_records @ [(origin_function, r)]) records ws'
                | None \<Rightarrow> records_loop env items default_records records ws')))"

text \<open>The result is the list returned together with the warnings that were issued.\<close>

definition get_records :: "rewriter_registry \<Rightarrow> env \<Rightarrow>
    error + ((string \<times> rewrite_record) list \<times> string list)" where
  "get_records reg env =
     (case records_loop env (DAList.impl_of reg) [] [] [] of
        Inl e \<Rightarrow> Inl e
      | Inr (default_records, records, ws) \<Rightarrow> Inr (default_records @ records, ws))"

subsection \<open>remove\_record\<close>

text \<open>
  The first loop collects the pairs to remove: the records whose \<^verbatim>\<open>'_object'\<close> is the
  given object, unless the filter callback asks to keep them.
\<close>

definition to_pop :: "pyfunc \<Rightarrow> (rewrite_record \<Rightarrow> bool) option \<Rightarrow> rewrite_record \<Rightarrow> bool" where
  "to_pop obj filter_cb rec =
     (object rec = obj \<and> (case filter_cb of None \<Rightarrow> True | Some cb \<Rightarrow> \<not> cb rec))"

fun key_to_pop :: "pyfunc \<Rightarrow> (rewrite_record \<Rightarrow> bool) option \<Rightarrow>
    (string \<times> rewrite_record list) list \<Rightarrow> (string \<times> rewrite_record) list" where
  "key_to_pop obj filter_cb [] = []"
| "key_to_pop obj filter_cb ((key, records) # items) =
     map (Pair key) (filter (to_pop obj filter_cb) records) @ key_to_pop obj filter_cb items"

text \<open>
  The second loop: \<^verbatim>\<open>self._rewrite_records[key]\<close> raises \<^verbatim>\<open>KeyError\<close> on a missing
  key, \<^verbatim>\<open>records.remove(rec)\<close> removes the first equal record and raises
  \<^verbatim>\<open>ValueError\<close> when there is none, and an emptied list has its key popped. The list
  is changed in place, so the key keeps its position in the table.
\<close>

fun pop_loop :: "(string \<times> rewrite_record) list \<Rightarrow> rewriter_registry \<Rightarrow>
    error + rewriter_registry" where
  "pop_loop [] reg = Inr reg"
| "pop_loop ((key, rec) # rest) reg =
     (case DAList.lookup reg key of
        None \<Rightarrow> Inl (KeyError key)
      | Some records \<Rightarrow>
          if rec \<notin> set records then Inl ValueError
          else
            (let records' = remove1 rec records
             in if length records' = 0 then pop_loop rest (DAList.delete key reg)
                else pop_loop rest (DAList.update key records' reg)))"

definition remove_record :: "pyfunc \<Rightarrow> (rewrite_record \<Rightarrow> bool) option \<Rightarrow>
    rewriter_registry \<Rightarrow> error + rewriter_registry" where
  "remove_record obj filter_cb reg =
     pop_loop (key_to_pop obj filter_cb (DAList.impl_of reg)) reg"

section \<open>The live object graph\<close>

text \<open>
  The rewriter works on the interpreter's own objects: it evaluates dotted paths, assigns
  and deletes attributes, and asks the garbage collector for every list and dictionary
  that holds a given function. The model is a store. A container (a module, a class, or
  any other dictionary or list) has a name; a cell of the store is a container together
  with an attribute name or a list index, and holds a callable. \<open>kinds\<close> tells
  which dotted names evaluate to a module and which to a class; a class comes with the
  names of the classes that follow it in its \<^verbatim>\<open>__mro__\<close>.

  What a cell holds is a function, a function wrapped by \<^verbatim>\<open>staticmethod\<close> or by
  \<^verbatim>\<open>classmethod\<close>, or a method bound to a class. Reading an attribute through a class
  goes through the descriptor protocol, reading it from a module or from the class's own
  dictionary does not. Bound methods are told apart by their function and their class.

  \<open>type_names\<close> lists the names that attribute lookup finds on the metaclass of the
  classes, those that \<^verbatim>\<open>type\<close> and \<^verbatim>\<open>object\<close> define (\<^verbatim>\<open>__init__\<close>, \<^verbatim>\<open>__call__\<close>,
  \<^verbatim>\<open>__repr__\<close>, ...): \<^verbatim>\<open>object.__getattribute__\<close> applied to a class finds them.

  The limits of the store: cells hold callables only, so the attributes that lead from a
  package to its modules and classes are the names in \<open>kinds\<close> and a path that ends at
  a module or a class does not evaluate; \<^verbatim>\<open>__getattr__\<close> hooks, attributes of
  functions, classes that refuse assignment (built-in types) and the interpreter's cache
  of class attributes are not modelled, the model reads the dictionaries. The rewriter's
  own bookkeeping (registry records, context callers) is kept outside the store.
\<close>

datatype key = Attr string | Index nat

datatype kind = Module | Class "string list"

datatype pyobj =
    Function pyfunc
  | StaticMethod pyfunc
  | ClassMethod pyfunc
  | BoundMethod pyfunc string

record world =
  kinds :: "string \<rightharpoonup> kind"
  cells :: "string \<times> key \<rightharpoonup> pyobj"
  type_names :: "string list"
  next_id :: nat
  wrapped_fns_to_patch :: "(nat \<times> string) list"
  log :: "string list"

text \<open>\<^verbatim>\<open>'.'.join(pieces)\<close>.\<close>

fun join_on :: "char \<Rightarrow> string list \<Rightarrow> string" where
  "join_on sep [] = []"
| "join_on sep [x] = x"
| "join_on sep (x # y # ys) = x @ sep # join_on sep (y # ys)"

text \<open>\<^verbatim>\<open>exec('import a.b.c')\<close> succeeds when the dotted name is a module.\<close>

definition importable :: "world \<Rightarrow> string list \<Rightarrow> bool" where
  "importable w names = (kinds w (join_on CHR ''.'' names) = Some Module)"

text \<open>
  \<^verbatim>\<open>for i in range(len(split_path), 0, -1): try: import ...; break; except: continue\<close>.
  The result tells whether some import succeeded, which is what binds the first name of
  the path for the \<^verbatim>\<open>eval\<close> that follows.
\<close>

fun import_prefixes :: "world \<Rightarrow> string list \<Rightarrow> nat \<Rightarrow> bool" where
  "import_prefixes w split_path 0 = False"
| "import_prefixes w split_path (Suc i) =
     (if importable w (take (Suc i) split_path) then True
      else import_prefixes w split_path i)"

text \<open>
  The descriptor protocol, for an attribute read through the class \<open>owner\<close>
  (\<^verbatim>\<open>attr.__get__(None, owner)\<close>): a function and a bound method are returned as they
  are, a \<^verbatim>\<open>staticmethod\<close> gives its function, a \<^verbatim>\<open>classmethod\<close> gives a method bound
  to the class through which it is read.
\<close>

fun descr_get :: "pyobj \<Rightarrow> string \<Rightarrow> pyobj" where
  "descr_get (Function f) owner = Function f"
| "descr_get (StaticMethod f) owner = Function f"
| "descr_get (ClassMethod f) owner = BoundMethod f owner"
| "descr_get (BoundMethod f c) owner = BoundMethod f c"

text \<open>
  Attribute lookup on a class: its own dictionary, then the classes of its MRO; what is
  found goes through \<open>descr_get\<close>.
\<close>

fun mro_lookup :: "(string \<times> key \<rightharpoonup> pyobj) \<Rightarrow> string list \<Rightarrow> string \<Rightarrow> pyobj option" where
  "mro_lookup cs [] name = None"
| "mro_lookup cs (c # mro) name =
     (case cs (c, Attr name) of Some v \<Rightarrow> Some v | None \<Rightarrow> mro_lookup cs mro name)"

definition lookup_attr :: "world \<Rightarrow> string \<Rightarrow> string \<Rightarrow> error + pyobj" where
  "lookup_attr w owner name =
     (case kinds w owner of
        None \<Rightarrow> Inl (AttributeError owner)
      | Some Module \<Rightarrow>
          (case cells w (owner, Attr name) of
             None \<Rightarrow> Inl (AttributeError name)
           | Some v \<Rightarrow> Inr v)
      | Some (Class mro) \<Rightarrow>
          (case mro_lookup (cells w) (owner # mro) name of
             None \<Rightarrow> Inl (AttributeError name)
           | Some v \<Rightarrow> Inr (descr_get v owner)))"

text \<open>
  The import loop followed by \<^verbatim>\<open>eval(path)\<close>. Without a successful import the first
  name is unbound. A path of a single name evaluates to a module or a global, which the
  store does not hold; \<open>import_function\<close> fails on such a path in any case, its
  \<^verbatim>\<open>eval('')\<close> being a syntax error.
\<close>

definition eval_path :: "world \<Rightarrow> string \<Rightarrow> error + pyobj" where
  "eval_path w path =
     (let split_path = split_on CHR ''.'' path
      in if \<not> import_prefixes w split_path (length split_path) then Inl (NameError (hd split_path))
         else if length split_path < 2 then Inl SyntaxError
         else lookup_attr w (join_on CHR ''.'' (butlast split_path)) (last split_path))"

definition is_class :: "world \<Rightarrow> string \<Rightarrow> bool" where
  "is_class w name = (case kinds w name of Some (Class mro) \<Rightarrow> True | _ \<Rightarrow> False)"

text \<open>\<open>import_function\<close>: the object at the path and, when the path leads into a class, the class.\<close>

definition import_function :: "world \<Rightarrow> string \<Rightarrow> error + (pyobj \<times> string option)" where
  "import_function w path =
     (let split_path = split_on CHR ''.'' path
      in case eval_path w path of
           Inl e \<Rightarrow> Inl e
         | Inr obj \<Rightarrow>
             (let previous_obj = join_on CHR ''.'' (butlast split_path)
              in if is_class w previous_obj then Inr (obj, Some previous_obj)
                 else Inr (obj, None)))"

subsection \<open>Helpers of rewriter\_utils.py\<close>

text \<open>
  \<open>copy_function\<close> makes a new function object over a copy of the globals: both get
  identities that were not in use. The name, module and qualified name are those of the
  original (\<^verbatim>\<open>functools.update_wrapper\<close>).
\<close>

definition copy_function :: "pyfunc \<Rightarrow> world \<Rightarrow> pyfunc \<times> world" where
  "copy_function f w =
     (f\<lparr>func_id := next_id w, func_globals := Suc (next_id w)\<rparr>,
      w\<lparr>next_id := Suc (Suc (next_id w))\<rparr>)"

definition get_func_qualname :: "pyfunc \<Rightarrow> string" where
  "get_func_qualname func = func_module func @ ''.'' @ func_qualname func"

text \<open>
  The frame that \<^verbatim>\<open>inspect.stack()[top]\<close> returns: the name of the running function
  and the globals of its code.
\<close>

record frame_info =
  function_name :: string
  f_globals :: "string \<rightharpoonup> pyfunc"

definition get_frame_func :: "frame_info \<Rightarrow> error + pyfunc" where
  "get_frame_func frameinfo =
     (case f_globals frameinfo (function_name frameinfo) of
        None \<Rightarrow> Inl AssertionError
      | Some func \<Rightarrow> Inr func)"

type_synonym py_dict = "(string \<times> string) list"

text \<open>
  A \<^verbatim>\<open>ContextCaller\<close>: the copied rewrite function, the original callable, the
  configuration, and the keyword arguments set as attributes.
\<close>

record context_caller =
  func :: pyfunc
  origin_func :: pyobj
  cfg :: py_dict
  attributes :: py_dict

text \<open>
  \<^verbatim>\<open>ContextCaller(func, origin_func, cfg, **kwargs)\<close>: the first three arguments are
  passed by position, so a keyword argument that has the name of a parameter of
  \<^verbatim>\<open>__init__\<close> makes the call raise \<^verbatim>\<open>TypeError\<close> (multiple values for the argument).
\<close>

definition ContextCaller_init :: "pyfunc \<Rightarrow> pyobj \<Rightarrow> py_dict \<Rightarrow> py_dict \<Rightarrow>
    error + context_caller" where
  "ContextCaller_init f origin config kw =
     (if list_ex (\<lambda>k. k \<in> set [''self'', ''func'', ''origin_func'', ''cfg'']) (map fst kw)
      then Inl TypeError
      else Inr \<lparr>func = f, origin_func = origin, cfg = config, attributes = kw\<rparr>)"

text \<open>\<^verbatim>\<open>d.update(other)\<close> on a copy of \<open>d\<close>: a key of \<open>other\<close> replaces the value or is added at the end.\<close>

definition dict_update :: "py_dict \<Rightarrow> py_dict \<Rightarrow> py_dict" where
  "dict_update d other = foldl (\<lambda>acc item. AList.update (fst item) (snd item) acc) d other"

subsection \<open>Functions of function\_rewriter.py\<close>

text \<open>
  \<open>_replace_all_obj\<close>: every list item that is the object is replaced; every dictionary
  value that is the object is replaced unless its key is in \<open>ignore_keys\<close>; a container
  listed in \<open>ignore_refs\<close> is left alone. The referrers the collector reports are the
  containers of the store.
\<close>

definition replace_all_obj :: "pyobj \<Rightarrow> pyobj \<Rightarrow> string list \<Rightarrow> string list \<Rightarrow>
    (string \<times> key \<rightharpoonup> pyobj) \<Rightarrow> (string \<times> key \<rightharpoonup> pyobj)" where
  "replace_all_obj obj new_obj ignore_refs ignore_keys cs =
     (\<lambda>(ref, k).
        case cs (ref, k) of
          None \<Rightarrow> None
        | Some v \<Rightarrow>
            if ref \<in> set ignore_refs then Some v
            else (case k of
                    Index i \<Rightarrow> if v = obj then Some new_obj else Some v
                  | Attr a \<Rightarrow> if v = obj \<and> a \<notin> set ignore_keys then Some new_obj else Some v))"

text \<open>
  \<open>_set_func\<close>: evaluate the path (an exception of \<^verbatim>\<open>eval\<close> is not caught), replace
  all references unless the path leads into a class, then assign.
\<close>

definition set_func :: "string \<Rightarrow> pyobj \<Rightarrow> string list \<Rightarrow> string list \<Rightarrow> world \<Rightarrow>
    error + world" where
  "set_func origin_func_path rewrite_func ignore_refs ignore_keys w =
     (let split_path = split_on CHR ''.'' origin_func_path
      in case eval_path w origin_func_path of
           Inl e \<Rightarrow> Inl e
         | Inr origin \<Rightarrow>
             (let module_or_class = join_on CHR ''.'' (butlast split_path);
                  method_class = (length split_path > 1 \<and> is_class w module_or_class);
                  cs = (if \<not> method_class
                        then replace_all_obj origin rewrite_func ignore_refs ignore_keys
                               (cells w)
                        else cells w)
              in Inr (w\<lparr>cells := cs((module_or_class, Attr (last split_path)) \<mapsto> rewrite_func)\<rparr>)))"

text \<open>
  \<^verbatim>\<open>exec('del a.b.name')\<close>: the owner must evaluate and hold the attribute itself; an
  inherited attribute cannot be deleted.
\<close>

definition del_path :: "world \<Rightarrow> string list \<Rightarrow> world option" where
  "del_path w split_path =
     (let owner = join_on CHR ''.'' (butlast split_path);
          name = last split_path
      in if length split_path < 2 \<or> kinds w owner = None then None
         else (case cells w (owner, Attr name) of
                 None \<Rightarrow> None
               | Some v \<Rightarrow> Some (w\<lparr>cells := (cells w)((owner, Attr name) := None)\<rparr>)))"

text \<open>
  \<open>_del_func\<close>: for each prefix, longest first, import it and delete; the first
  iteration in which both succeed ends the loop, any exception moves on to the next.
\<close>

fun del_loop :: "world \<Rightarrow> string list \<Rightarrow> nat \<Rightarrow> world" where
  "del_loop w split_path 0 = w"
| "del_loop w split_path (Suc i) =
     (if importable w (take (Suc i) split_path) then
        (case del_path w split_path of
           Some w' \<Rightarrow> w'
         | None \<Rightarrow> del_loop w split_path i)
      else del_loop w split_path i)"

definition del_func :: "string \<Rightarrow> world \<Rightarrow> world" where
  "del_func path w =
     (let split_path = split_on CHR ''.'' path in del_loop w split_path (length split_path))"

text \<open>
  \<open>_fx_wrap_copied_fn\<close>: when the globals of the function are on the list of
  \<^verbatim>\<open>torch.fx\<close>, an entry for the globals of the copy is appended under the same name.
  Globals dictionaries are told apart by their identity.
\<close>

definition fx_wrap_copied_fn :: "pyfunc \<Rightarrow> pyfunc \<Rightarrow> world \<Rightarrow> world" where
  "fx_wrap_copied_fn f copied_func w =
     (case find (\<lambda>item. fst item = func_globals f) (wrapped_fns_to_patch w) of
        None \<Rightarrow> w
      | Some item \<Rightarrow>
          w\<lparr>wrapped_fns_to_patch :=
               wrapped_fns_to_patch w @ [(func_globals copied_func, snd item)]\<rparr>)"

section \<open>The function rewriter (FunctionRewriter)\<close>

text \<open>
  \<^verbatim>\<open>__init__\<close> creates the registry and the table of contexts only; the attributes
  \<^verbatim>\<open>_ori_fx_wrap_num\<close>, \<^verbatim>\<open>_origin_functions\<close> and \<^verbatim>\<open>_additional_functions\<close> exist
  once \<open>enter\<close> has assigned them. The table of contexts is a
  \<^verbatim>\<open>defaultdict(list)\<close>: a missing key reads as the empty list.
\<close>

record function_rewriter =
  registry :: rewriter_registry
  func_contexts :: "string \<Rightarrow> context_caller list"
  ori_fx_wrap_num :: "nat option"
  origin_functions :: "(string \<times> pyobj) list option"
  additional_functions :: "string list option"

definition init :: function_rewriter where
  "init = \<lparr>registry = DAList.empty, func_contexts = (\<lambda>k. []), ori_fx_wrap_num = None,
           origin_functions = None, additional_functions = None\<rparr>"

definition register_rewriter :: "string \<Rightarrow> backend \<Rightarrow> ir \<Rightarrow> checker list \<Rightarrow> pyfunc \<Rightarrow>
    py_dict \<Rightarrow> function_rewriter \<Rightarrow> function_rewriter" where
  "register_rewriter func_name backend ir extra_checkers obj kw rw =
     rw\<lparr>registry := register func_name backend ir extra_checkers obj kw (registry rw)\<rparr>"

text \<open>The variables of the first loop of \<open>enter\<close>.\<close>

record enter_vars =
  ev_origin_functions :: "(string \<times> pyobj) list"
  ev_additional_functions :: "string list"
  ev_new_functions :: "(string \<times> pyobj) list"
  ev_func_contexts :: "string \<Rightarrow> context_caller list"

definition not_found_warning :: "string \<Rightarrow> string" where
  "not_found_warning function_path =
     ''Can not find '' @ function_path @ '', function rewrite will not be applied''"

text \<open>
  One round of the first loop. A path that does not evaluate is logged and skipped. For
  a path into a class, \<^verbatim>\<open>origin_class.__getattribute__(origin_class, function_name)\<close>
  is \<^verbatim>\<open>object.__getattribute__\<close> applied to the class: it finds the names of the
  class's own dictionary and the names of the metaclass, not those of the base classes;
  when it raises, the path is an additional function. The original is saved before the
  context is built; the keyword arguments of the registration go on top of those of the
  call, and building the context raises when one of them has the name of a parameter.
  The record's \<^verbatim>\<open>_checkers\<close> and \<^verbatim>\<open>_object\<close>, which also become attributes of the
  context, are not kept in \<open>attributes\<close>.
\<close>

definition enter_step :: "py_dict \<Rightarrow> py_dict \<Rightarrow> string \<times> rewrite_record \<Rightarrow>
    enter_vars \<times> world \<Rightarrow> (error \<times> enter_vars \<times> world) + (enter_vars \<times> world)" where
  "enter_step config kw item state =
     (let function_path = fst item; record_dict = snd item; vars = fst state; w = snd state
      in case import_function w function_path of
           Inl e \<Rightarrow> Inr (vars, w\<lparr>log := log w @ [not_found_warning function_path]\<rparr>)
         | Inr (origin, origin_class) \<Rightarrow>
             (let function_name = last (split_on CHR ''.'' function_path);
                  is_addition_function =
                    (case origin_class of
                       None \<Rightarrow> False
                     | Some c \<Rightarrow> cells w (c, Attr function_name) = None
                                \<and> function_name \<notin> set (type_names w));
                  additional = (if is_addition_function
                                then ev_additional_functions vars @ [function_path]
                                else ev_additional_functions vars);
                  vars1 = vars\<lparr>ev_origin_functions :=
                                 ev_origin_functions vars @ [(function_path, origin)],
                               ev_additional_functions := additional\<rparr>;
                  copied = copy_function (object record_dict) w;
                  rewrite_function = fst copied;
                  extra_kwargs = dict_update kw (kwargs record_dict)
              in case ContextCaller_init rewrite_function origin config extra_kwargs of
                   Inl e \<Rightarrow> Inl (e, vars1, snd copied)
                 | Inr context \<Rightarrow>
                     (let w' = fx_wrap_copied_fn (object record_dict) rewrite_function
                                 (snd copied);
                          qualname = get_func_qualname rewrite_function;
                          contexts1 = (ev_func_contexts vars)
                                        (qualname := ev_func_contexts vars qualname @ [context]);
                          contexts2 = contexts1
                                        (function_path := contexts1 function_path @ [context])
                      in Inr (vars1\<lparr>ev_new_functions :=
                                       ev_new_functions vars @
                                         [(function_path, Function rewrite_function)],
                                     ev_func_contexts := contexts2\<rparr>, w'))))"

text \<open>The first loop: an exception ends it and leaves the variables and the store as they then are.\<close>

fun enter_loop :: "py_dict \<Rightarrow> py_dict \<Rightarrow> (string \<times> rewrite_record) list \<Rightarrow>
    enter_vars \<times> world \<Rightarrow> (error \<times> enter_vars \<times> world) + (enter_vars \<times> world)" where
  "enter_loop config kw [] state = Inr state"
| "enter_loop config kw (item # rest) state =
     (case enter_step config kw item state of
        Inl e \<Rightarrow> Inl e
      | Inr state' \<Rightarrow> enter_loop config kw rest state')"

text \<open>The loops that call \<open>_set_func\<close>; an exception leaves the store as it then is.\<close>

fun set_loop :: "(string \<times> pyobj) list \<Rightarrow> world \<Rightarrow> (error \<times> world) + world" where
  "set_loop [] w = Inr w"
| "set_loop ((func_path, f) # rest) w =
     (case set_func func_path f [] [''origin_func''] w of
        Inl e \<Rightarrow> Inl (e, w)
      | Inr w' \<Rightarrow> set_loop rest w')"

text \<open>
  \<open>enter\<close>. The result is either the exception raised together with the state it
  leaves, or the state after a normal return. The lists of the first loop are attributes
  of the rewriter that the loop appends to, so an exception leaves them as far as they
  were built.
\<close>

definition enter :: "function_rewriter \<Rightarrow> world \<Rightarrow> py_dict \<Rightarrow> env \<Rightarrow> py_dict \<Rightarrow>
    (error \<times> function_rewriter \<times> world) + (function_rewriter \<times> world)" where
  "enter rw w config env kw =
     (let rw0 = rw\<lparr>func_contexts := (\<lambda>k. [])\<rparr>
      in case get_records (registry rw0) env of
           Inl e \<Rightarrow> Inl (e, rw0, w)
         | Inr (functions_records, ws) \<Rightarrow>
             (let start = (\<lparr>ev_origin_functions = [], ev_additional_functions = [],
                            ev_new_functions = [], ev_func_contexts = (\<lambda>k. [])\<rparr>,
                           w\<lparr>log := log w @ ws\<rparr>);
                  stored = (\<lambda>vars. rw0\<lparr>func_contexts := ev_func_contexts vars,
                            ori_fx_wrap_num := Some (length (wrapped_fns_to_patch w)),
                            origin_functions := Some (ev_origin_functions vars),
                            additional_functions := Some (ev_additional_functions vars)\<rparr>)
              in case enter_loop config kw functions_records start of
                   Inl (e, vars, w') \<Rightarrow> Inl (e, stored vars, w')
                 | Inr (vars, w') \<Rightarrow>
                     (case set_loop (ev_new_functions vars) w' of
                        Inl (e, w'') \<Rightarrow> Inl (e, stored vars, w'')
                      | Inr w'' \<Rightarrow> Inr (stored vars, w''))))"

text \<open>
  \<open>exit\<close>. Reading an attribute that \<open>enter\<close> has not created raises
  \<^verbatim>\<open>AttributeError\<close>. The list of \<^verbatim>\<open>torch.fx\<close> loses as many entries from its end as
  it has grown by.
\<close>

definition exit :: "function_rewriter \<Rightarrow> world \<Rightarrow>
    (error \<times> function_rewriter \<times> world) + (function_rewriter \<times> world)" where
  "exit rw w =
     (let cur_fx_wrap_num = length (wrapped_fns_to_patch w)
      in case ori_fx_wrap_num rw of
           None \<Rightarrow> Inl (AttributeError ''_ori_fx_wrap_num'', rw, w)
         | Some ori \<Rightarrow>
             (let w1 = w\<lparr>wrapped_fns_to_patch :=
                           (butlast ^^ (cur_fx_wrap_num - ori)) (wrapped_fns_to_patch w)\<rparr>
              in case origin_functions rw of
                   None \<Rightarrow> Inl (AttributeError ''_origin_functions'', rw, w1)
                 | Some origins \<Rightarrow>
                     (case set_loop origins w1 of
                        Inl (e, w2) \<Rightarrow> Inl (e, rw, w2)
                      | Inr w2 \<Rightarrow>
                          (case additional_functions rw of
                             None \<Rightarrow> Inl (AttributeError ''_additional_functions'', rw, w2)
                           | Some additional \<Rightarrow>
                               Inr (rw\<lparr>func_contexts := (\<lambda>k. [])\<rparr>,
                                    foldl (\<lambda>w' func_path. del_func func_path w') w2
                                      additional)))))"

definition context_warning :: "string \<Rightarrow> string" where
  "context_warning k = ''Can not found context of '' @ k"

text \<open>
  \<open>get_context\<close>, called from the function whose frame is given. With a key, exactly
  one context must be registered under it. Without one, the calling function is taken
  from its frame and the contexts under its qualified name are searched for the one whose
  \<open>func\<close> it is (the last such wins); finding none is logged and \<^verbatim>\<open>None\<close> is returned.
  The result carries the warnings logged.
\<close>

definition get_context :: "function_rewriter \<Rightarrow> string option \<Rightarrow> frame_info \<Rightarrow>
    error + (context_caller option \<times> string list)" where
  "get_context rw key caller =
     (case key of
        Some k \<Rightarrow>
          (let ctxs = func_contexts rw k
           in if length ctxs = 1 then Inr (Some (hd ctxs), []) else Inl AssertionError)
      | None \<Rightarrow>
          (case get_frame_func caller of
             Inl e \<Rightarrow> Inl e
           | Inr f \<Rightarrow>
               (let k = get_func_qualname f;
                    ctxs = func_contexts rw k;
                    ctx = foldl (\<lambda>found tmp_ctx. if func tmp_ctx = f then Some tmp_ctx else found)
                            None ctxs
                in if ctx = None then Inr (None, [context_warning k]) else Inr (ctx, []))))"

section \<open>Predicates used in the statements\<close>

text \<open>
  A candidate is a default when its checker list is empty, and a candidate with checkers
  is valid in an environment when every one of them passes (the value of the variable
  \<^verbatim>\<open>valid\<close> of the source after the loop over the checkers).
\<close>

definition is_default :: "rewrite_record \<Rightarrow> bool" where
  "is_default r = (checkers r = [])"

definition valid_in :: "env \<Rightarrow> rewrite_record \<Rightarrow> bool" where
  "valid_in env r = (checkers r \<noteq> [] \<and> all_checks env (checkers r) = Inr True)"

text \<open>What one item of the table contributes to \<^verbatim>\<open>records\<close> and to \<^verbatim>\<open>default_records\<close>.\<close>

definition final_of :: "env \<Rightarrow> string \<times> rewrite_record list \<Rightarrow>
    (string \<times> rewrite_record) option" where
  "final_of env item = map_option (Pair (fst item)) (find (valid_in env) (snd item))"

definition default_of :: "env \<Rightarrow> string \<times> rewrite_record list \<Rightarrow>
    (string \<times> rewrite_record) option" where
  "default_of env item =
     (if find (valid_in env) (snd item) = None
      then map_option (Pair (fst item)) (find is_default (snd item)) else None)"

text \<open>No checker list of the table raises in the environment.\<close>

definition checks_total :: "env \<Rightarrow> (string \<times> rewrite_record list) list \<Rightarrow> bool" where
  "checks_total env items =
     list_all (\<lambda>item. list_all (\<lambda>r. \<not> isl (all_checks env (checkers r))) (snd item)) items"

text \<open>The invariant of the table: no key maps to an empty list.\<close>

definition nonempty_lists :: "rewriter_registry \<Rightarrow> bool" where
  "nonempty_lists reg = list_all (\<lambda>item. snd item \<noteq> []) (DAList.impl_of reg)"

text \<open>
  For the second loop of \<open>remove_record\<close>: the records still to be removed under a key,
  and the records the table holds under it.
\<close>

definition pending_for :: "string \<Rightarrow> (string \<times> rewrite_record) list \<Rightarrow> rewrite_record list" where
  "pending_for k ks = map snd (filter (\<lambda>x. fst x = k) ks)"

definition stored_for :: "rewriter_registry \<Rightarrow> string \<Rightarrow> rewrite_record list" where
  "stored_for reg k = (case DAList.lookup reg k of None \<Rightarrow> [] | Some rs \<Rightarrow> rs)"

section \<open>A registry and an environment to run the definitions on\<close>

definition mk_func :: "nat \<Rightarrow> string \<Rightarrow> pyfunc" where
  "mk_func n name =
     \<lparr>func_id = n, func_module = ''rewrites'', func_qualname = name, func_globals = 100\<rparr>"

definition example_env :: env where
  "example_env =
     [''backend'' \<mapsto> BackendVal (Backend ''tensorrt''), ''ir'' \<mapsto> IRVal (IR ''onnx'')]"

text \<open>Seven registrations on four paths, written innermost first.\<close>

definition example_registry :: rewriter_registry where
  "example_registry =
     register ''pkg.mod.k'' (Backend ''tensorrt'') IR_DEFAULT [] (mk_func 7 ''k__tensorrt'') []
    (register ''pkg.mod.k'' Backend_DEFAULT IR_DEFAULT [] (mk_func 6 ''k__default'') []
    (register ''pkg.mod.h'' Backend_DEFAULT IR_DEFAULT [] (mk_func 5 ''h__default'') []
    (register ''pkg.mod.f'' Backend_DEFAULT (IR ''onnx'') [] (mk_func 4 ''f__onnx'') []
    (register ''pkg.mod.f'' (Backend ''tensorrt'') IR_DEFAULT [] (mk_func 3 ''f__tensorrt'') []
    (register ''pkg.mod.f'' Backend_DEFAULT IR_DEFAULT [] (mk_func 2 ''f__default'') []
    (register ''pkg.mod.g'' (Backend ''ncnn'') IR_DEFAULT [] (mk_func 1 ''g__ncnn'') []
       DAList.empty))))))"

text \<open>One more path, whose only candidate asks for the version of a library \<^verbatim>\<open>foo\<close>.\<close>

definition versioned_registry :: rewriter_registry where
  "versioned_registry =
     register ''pkg.mod.v'' Backend_DEFAULT IR_DEFAULT
       [LibVersionChecker ''foo'' (Some ''1.8.0'') None] (mk_func 8 ''v__foo'') []
       example_registry"

definition g_ncnn :: rewrite_record where
  "g_ncnn = \<lparr>checkers = [BackendChecker (Backend ''ncnn'')],
     object = mk_func 1 ''g__ncnn'', kwargs = []\<rparr>"

definition f_default :: rewrite_record where
  "f_default = \<lparr>checkers = [], object = mk_func 2 ''f__default'', kwargs = []\<rparr>"

definition f_tensorrt :: rewrite_record where
  "f_tensorrt = \<lparr>checkers = [BackendChecker (Backend ''tensorrt'')],
     object = mk_func 3 ''f__tensorrt'', kwargs = []\<rparr>"

definition f_onnx :: rewrite_record where
  "f_onnx = \<lparr>checkers = [IRChecker (IR ''onnx'')],
     object = mk_func 4 ''f__onnx'', kwargs = []\<rparr>"

definition h_default :: rewrite_record where
  "h_default = \<lparr>checkers = [], object = mk_func 5 ''h__default'', kwargs = []\<rparr>"

definition k_default :: rewrite_record where
  "k_default = \<lparr>checkers = [], object = mk_func 6 ''k__default'', kwargs = []\<rparr>"

definition k_tensorrt :: rewrite_record where
  "k_tensorrt = \<lparr>checkers = [BackendChecker (Backend ''tensorrt'')],
     object = mk_func 7 ''k__tensorrt'', kwargs = []\<rparr>"

definition example_resolved :: "(string \<times> rewrite_record) list" where
  "example_resolved =
     [(''pkg.mod.h'', h_default), (''pkg.mod.f'', f_tensorrt), (''pkg.mod.k'', k_tensorrt)]"

section \<open>Notions used in the statements about enter and exit\<close>

text \<open>The cell a path assigns to: the owner named by all but the last piece, and the last piece.\<close>

definition slot_of :: "string \<Rightarrow> string \<times> key" where
  "slot_of path =
     (join_on CHR ''.'' (butlast (split_on CHR ''.'' path)), Attr (last (split_on CHR ''.'' path)))"

definition resolvable :: "world \<Rightarrow> string \<Rightarrow> bool" where
  "resolvable w path = (\<not> isl (eval_path w path))"

text \<open>The function of a callable (\<^verbatim>\<open>__func__\<close> of a wrapper or of a bound method).\<close>

fun function_of :: "pyobj \<Rightarrow> pyfunc" where
  "function_of (Function f) = f"
| "function_of (StaticMethod f) = f"
| "function_of (ClassMethod f) = f"
| "function_of (BoundMethod f c) = f"

text \<open>
  Every function object of the store was created before the next identity to be handed
  out: a new object differs from all that exist.
\<close>

definition well_allocated :: "world \<Rightarrow> bool" where
  "well_allocated w = (\<forall>x v. cells w x = Some v \<longrightarrow> func_id (function_of v) < next_id w)"

text \<open>
  The paths for which the round trip of \<open>enter\<close> and \<open>exit\<close> is proved below. A path
  evaluates to what is stored: when the owner's own dictionary has the name, evaluating
  the path gives the very object the dictionary holds (no \<^verbatim>\<open>staticmethod\<close> or
  \<^verbatim>\<open>classmethod\<close> wrapper stands in between). A path is deletable when, the name being
  inherited by a class, it is not a name of the metaclass as well. The keyword arguments
  are accepted when building the context raises for no record.
\<close>

definition evaluates_to_stored :: "world \<Rightarrow> string \<Rightarrow> bool" where
  "evaluates_to_stored w path =
     (case cells w (slot_of path) of
        None \<Rightarrow> True
      | Some u \<Rightarrow> eval_path w path = Inr u)"

definition deletable :: "world \<Rightarrow> string \<Rightarrow> bool" where
  "deletable w path =
     (case cells w (slot_of path) of
        None \<Rightarrow> last (split_on CHR ''.'' path) \<notin> set (type_names w)
      | Some u \<Rightarrow> True)"

definition accepted :: "py_dict \<Rightarrow> (string \<times> rewrite_record) list \<Rightarrow> bool" where
  "accepted kw res =
     list_all (\<lambda>item. \<not> list_ex (\<lambda>k. k \<in> set [''self'', ''func'', ''origin_func'', ''cfg''])
                           (map fst (dict_update kw (kwargs (snd item))))) res"

text \<open>
  What one call of \<open>set_func\<close> with the default arguments does to the cells: for a
  path outside a class, every cell that holds the current value, except under the key
  \<^verbatim>\<open>origin_func\<close>, takes the new value; then the cell of the path takes it.
\<close>

definition ignored :: "string \<times> key \<Rightarrow> bool" where
  "ignored x = (snd x = Attr ''origin_func'')"

definition step_cells :: "string \<times> key \<Rightarrow> bool \<Rightarrow> pyobj \<Rightarrow>
    (string \<times> key \<rightharpoonup> pyobj) \<Rightarrow> (string \<times> key \<rightharpoonup> pyobj)" where
  "step_cells p plain v cs =
     (if plain
      then (case cs p of
              None \<Rightarrow> cs
            | Some cur \<Rightarrow> replace_all_obj cur v [] [''origin_func''] cs)
      else cs)(p \<mapsto> v)"

text \<open>
  A move is what \<open>enter\<close> and \<open>exit\<close> do for one path that was found: the cell, whether
  the path lies outside a class, the copy that \<open>enter\<close> installs and the original that
  \<open>exit\<close> puts back.
\<close>

record move =
  m_path :: string
  m_plain :: bool
  m_fresh :: pyobj
  m_orig :: pyobj

definition m_slot :: "move \<Rightarrow> string \<times> key" where
  "m_slot m = slot_of (m_path m)"

fun install :: "move list \<Rightarrow> (string \<times> key \<rightharpoonup> pyobj) \<Rightarrow> (string \<times> key \<rightharpoonup> pyobj)" where
  "install [] cs = cs"
| "install (m # ms) cs = install ms (step_cells (m_slot m) (m_plain m) (m_fresh m) cs)"

fun restore :: "move list \<Rightarrow> (string \<times> key \<rightharpoonup> pyobj) \<Rightarrow> (string \<times> key \<rightharpoonup> pyobj)" where
  "restore [] cs = cs"
| "restore (m # ms) cs = restore ms (step_cells (m_slot m) (m_plain m) (m_orig m) cs)"

text \<open>The original a copy stands for, and the cells as they are to be after the restoring loop.\<close>

definition rho :: "move list \<Rightarrow> pyobj \<Rightarrow> pyobj" where
  "rho ms v = (case find (\<lambda>m. m_fresh m = v) ms of Some m \<Rightarrow> m_orig m | None \<Rightarrow> v)"

definition tgt :: "move list \<Rightarrow> (string \<times> key \<rightharpoonup> pyobj) \<Rightarrow> (string \<times> key \<rightharpoonup> pyobj)" where
  "tgt ms cs0 x = (case find (\<lambda>m. m_slot m = x) ms of Some m \<Rightarrow> Some (m_orig m) | None \<Rightarrow> cs0 x)"

definition wf_moves :: "move list \<Rightarrow> (string \<times> key \<rightharpoonup> pyobj) \<Rightarrow> bool" where
  "wf_moves ms cs0 =
     (distinct (map m_slot ms) \<and> distinct (map m_fresh ms) \<and>
      (\<forall>m\<in>set ms. \<forall>m'\<in>set ms. m_fresh m \<noteq> m_orig m') \<and>
      (\<forall>m\<in>set ms. \<forall>x. cs0 x \<noteq> Some (m_fresh m)) \<and>
      (\<forall>m\<in>set ms. m_plain m \<longrightarrow> cs0 (m_slot m) \<noteq> None) \<and>
      (\<forall>m\<in>set ms. \<forall>v. cs0 (m_slot m) = Some v \<longrightarrow> v = m_orig m))"

definition rho_correct :: "move list \<Rightarrow> (string \<times> key \<rightharpoonup> pyobj) \<Rightarrow>
    (string \<times> key \<rightharpoonup> pyobj) \<Rightarrow> bool" where
  "rho_correct ms cs0 cs = (\<forall>x v. cs x = Some v \<longrightarrow> tgt ms cs0 x = Some (rho ms v))"

definition keeps_dom :: "(string \<times> key \<rightharpoonup> pyobj) \<Rightarrow> (string \<times> key \<rightharpoonup> pyobj) \<Rightarrow> bool" where
  "keeps_dom cs0 cs = (\<forall>x. cs0 x \<noteq> None \<longrightarrow> cs x \<noteq> None)"

definition anchored :: "move list \<Rightarrow> (string \<times> key \<rightharpoonup> pyobj) \<Rightarrow> bool" where
  "anchored ms cs =
     (\<forall>m\<in>set ms. \<forall>x. cs x = Some (m_fresh m) \<longrightarrow>
        x = m_slot m \<or> (m_plain m \<and> cs (m_slot m) = Some (m_fresh m) \<and> \<not> ignored x))"

definition gone :: "move set \<Rightarrow> (string \<times> key \<rightharpoonup> pyobj) \<Rightarrow> bool" where
  "gone S cs = (\<forall>m\<in>S. \<forall>x. cs x \<noteq> Some (m_fresh m))"

text \<open>
  The moves of a call of \<open>enter\<close>: one for each resolved path that evaluates, in order,
  the copies taking the identities from \<open>n\<close> on.
\<close>

fun plan :: "world \<Rightarrow> nat \<Rightarrow> (string \<times> rewrite_record) list \<Rightarrow> move list" where
  "plan w n [] = []"
| "plan w n (item # rest) =
     (case import_function w (fst item) of
        Inl e \<Rightarrow> plan w n rest
      | Inr found \<Rightarrow>
          \<lparr>m_path = fst item, m_plain = (snd found = None),
           m_fresh = Function ((object (snd item))\<lparr>func_id := n, func_globals := Suc n\<rparr>),
           m_orig = fst found\<rparr> # plan w (Suc (Suc n)) rest)"

text \<open>A move fits a store when its path evaluates there and its flag tells whether the owner is a class.\<close>

definition fits :: "world \<Rightarrow> move \<Rightarrow> bool" where
  "fits w m = (resolvable w (m_path m) \<and> m_plain m = (\<not> is_class w (fst (m_slot m))))"

definition is_addition :: "world \<Rightarrow> move \<Rightarrow> bool" where
  "is_addition w m =
     (\<not> m_plain m \<and> cells w (m_slot m) = None
      \<and> last (split_on CHR ''.'' (m_path m)) \<notin> set (type_names w))"

section \<open>A store and a rewriter to run the definitions on\<close>

definition target :: "nat \<Rightarrow> string \<Rightarrow> pyfunc" where
  "target n name =
     \<lparr>func_id = n, func_module = ''pkg.mod'', func_qualname = name, func_globals = 50\<rparr>"

text \<open>
  A package with one module and two classes, \<^verbatim>\<open>Derived\<close> inheriting from \<^verbatim>\<open>Base\<close> the
  method \<^verbatim>\<open>m\<close>, the constructor \<^verbatim>\<open>__init__\<close>, the class method \<^verbatim>\<open>cm\<close> and the
  static method \<^verbatim>\<open>sm\<close>. The
  function \<^verbatim>\<open>pkg.mod.f\<close> is also re-exported by the package, held by a list, and held
  by a dictionary under the key \<^verbatim>\<open>origin_func\<close>. Some of the names that \<^verbatim>\<open>type\<close> and
  \<^verbatim>\<open>object\<close> define stand for all of them.
\<close>

definition example_world :: world where
  "example_world =
     \<lparr>kinds = [''pkg'' \<mapsto> Module, ''pkg.mod'' \<mapsto> Module,
               ''pkg.mod.Base'' \<mapsto> Class [],
               ''pkg.mod.Derived'' \<mapsto> Class [''pkg.mod.Base'']],
      cells = [(''pkg.mod'', Attr ''f'') \<mapsto> Function (target 10 ''f''),
               (''pkg.mod'', Attr ''h'') \<mapsto> Function (target 11 ''h''),
               (''pkg.mod'', Attr ''k'') \<mapsto> Function (target 12 ''k''),
               (''pkg.mod.Base'', Attr ''m'') \<mapsto> Function (target 13 ''Base.m''),
               (''pkg.mod.Base'', Attr ''__init__'') \<mapsto> Function (target 14 ''Base.__init__''),
               (''pkg.mod.Base'', Attr ''cm'') \<mapsto> ClassMethod (target 15 ''Base.cm''),
               (''pkg.mod.Base'', Attr ''sm'') \<mapsto> StaticMethod (target 16 ''Base.sm''),
               (''pkg'', Attr ''f'') \<mapsto> Function (target 10 ''f''),
               (''handlers'', Index 0) \<mapsto> Function (target 10 ''f''),
               (''snapshot'', Attr ''origin_func'') \<mapsto> Function (target 10 ''f'')],
      type_names = [''__init__'', ''__new__'', ''__call__'', ''__repr__'', ''__eq__'', ''__hash__'',
                    ''__getattribute__'', ''__setattr__'', ''__delattr__'', ''__dir__'',
                    ''__subclasses__'', ''mro''],
      next_id = 200,
      wrapped_fns_to_patch = [(100, ''helper'')],
      log = []\<rparr>"

definition m_default :: rewrite_record where
  "m_default = \<lparr>checkers = [], object = mk_func 9 ''m__default'', kwargs = []\<rparr>"

definition example_rewriter :: function_rewriter where
  "example_rewriter =
     register_rewriter ''pkg.mod.Derived.m'' Backend_DEFAULT IR_DEFAULT []
       (mk_func 9 ''m__default'') [] (init\<lparr>registry := example_registry\<rparr>)"

definition rewriter_resolved :: "(string \<times> rewrite_record) list" where
  "rewriter_resolved =
     [(''pkg.mod.h'', h_default), (''pkg.mod.Derived.m'', m_default),
      (''pkg.mod.f'', f_tensorrt), (''pkg.mod.k'', k_tensorrt)]"

text \<open>
  Rewriters of one registration each: a rewrite of the constructor that \<^verbatim>\<open>Derived\<close>
  inherits, one of the class method of \<^verbatim>\<open>Base\<close>, and one of its static method.
\<close>

definition init_rewriter :: function_rewriter where
  "init_rewriter =
     register_rewriter ''pkg.mod.Derived.__init__'' Backend_DEFAULT IR_DEFAULT []
       (mk_func 20 ''init__default'') [] init"

definition cm_rewriter :: function_rewriter where
  "cm_rewriter =
     register_rewriter ''pkg.mod.Base.cm'' Backend_DEFAULT IR_DEFAULT []
       (mk_func 21 ''cm__default'') [] init"

definition sm_rewriter :: function_rewriter where
  "sm_rewriter =
     register_rewriter ''pkg.mod.Base.sm'' Backend_DEFAULT IR_DEFAULT []
       (mk_func 23 ''sm__default'') [] init"

text \<open>A registration with a keyword argument named as a parameter of \<^verbatim>\<open>ContextCaller\<close>.\<close>

definition cfg_rewriter :: function_rewriter where
  "cfg_rewriter =
     register_rewriter ''pkg.mod.h'' Backend_DEFAULT IR_DEFAULT []
       (mk_func 22 ''h__default'') [(''cfg'', ''x'')] init"

text \<open>A rewriter with two contexts under one qualified name, and the frame of a caller.\<close>

definition ctx_f :: context_caller where
  "ctx_f = \<lparr>func = mk_func 204 ''f__tensorrt'', origin_func = Function (target 10 ''f''), cfg = [],
            attributes = []\<rparr>"

definition ctx_k :: context_caller where
  "ctx_k = \<lparr>func = mk_func 206 ''f__tensorrt'', origin_func = Function (target 12 ''k''), cfg = [],
            attributes = []\<rparr>"

definition active_rewriter :: function_rewriter where
  "active_rewriter =
     init\<lparr>func_contexts := (\<lambda>k. if k = ''rewrites.f__tensorrt'' then [ctx_f, ctx_k] else [])\<rparr>"

definition caller_frame :: "pyfunc \<Rightarrow> frame_info" where
  "caller_frame f =
     \<lparr>function_name = func_qualname f, f_globals = [func_qualname f \<mapsto> f]\<rparr>"

section \<open>Resolution: properties of get\_records\<close>

lemma rewriter_loop_result:
  "rewriter_loop env p rs d f ws = Inr (d', f', ws') \<Longrightarrow>
     d' = (case d of Some x \<Rightarrow> Some x | None \<Rightarrow> find is_default rs) \<and>
     f' = (case f of Some x \<Rightarrow> Some x | None \<Rightarrow> find (valid_in env) rs)"
proof (induction rs arbitrary: d f ws)
  case Nil
  then show ?case by (auto split: option.splits)
next
  case (Cons r rs)
  from Cons.prems show ?case
    by (auto simp: valid_in_def[abs_def] is_default_def[abs_def]
          split: if_splits sum.splits option.splits dest!: Cons.IH)
qed

lemma rewriter_loop_total:
  "list_all (\<lambda>r. \<not> isl (all_checks env (checkers r))) rs \<Longrightarrow>
     \<exists>d' f' ws'. rewriter_loop env p rs d f ws = Inr (d', f', ws')"
proof (induction rs arbitrary: d f ws)
  case Nil
  then show ?case by simp
next
  case (Cons r rs)
  then show ?case
    by (cases "all_checks env (checkers r)") auto
qed

lemma rewriter_loop_warnings_mono:
  "rewriter_loop env p rs d f ws = Inr (d', f', ws') \<Longrightarrow> set ws \<subseteq> set ws'"
proof (induction rs arbitrary: d f ws)
  case Nil
  then show ?case by auto
next
  case (Cons r rs)
  then show ?case
    by (fastforce split: if_splits sum.splits)
qed

lemma rewriter_loop_warns:
  "rewriter_loop env p rs d f ws = Inr (d', f', ws') \<Longrightarrow>
     (if f = None then 2 else 1) \<le> length (filter (valid_in env) rs) \<Longrightarrow>
     final_warning p \<in> set ws'"
proof (induction rs arbitrary: d f ws)
  case Nil
  then show ?case by (auto split: if_splits)
next
  case (Cons r rs)
  show ?case
  proof (cases "valid_in env r")
    case False
    with Cons.prems have "\<exists>d1 w1. rewriter_loop env p rs d1 f w1 = Inr (d', f', ws')"
      by (auto simp: valid_in_def split: if_splits sum.splits) 
    with Cons.IH Cons.prems(2) False show ?thesis by auto
  next
    case True
    show ?thesis
    proof (cases f)
      case None
      with True Cons.prems have "rewriter_loop env p rs d (Some r) ws = Inr (d', f', ws')"
        by (auto simp: valid_in_def split: if_splits sum.splits)
      moreover have "1 \<le> length (filter (valid_in env) rs)"
        using Cons.prems(2) True None by simp
      ultimately show ?thesis using Cons.IH[of d "Some r" ws] by simp
    next
      case (Some x)
      with True Cons.prems
      have "rewriter_loop env p rs d f (ws @ [final_warning p]) = Inr (d', f', ws')"
        by (auto simp: valid_in_def split: if_splits sum.splits)
      from rewriter_loop_warnings_mono[OF this] show ?thesis by auto
    qed
  qed
qed

lemma records_loop_result:
  "records_loop env items dr rs ws = Inr (dr', rs', ws') \<Longrightarrow>
     dr' = dr @ List.map_filter (default_of env) items \<and>
     rs' = rs @ List.map_filter (final_of env) items"
proof (induction items arbitrary: dr rs ws)
  case Nil
  then show ?case by simp
next
  case (Cons item items)
  obtain p recs where item: "item = (p, recs)" by (cases item)
  from Cons.prems obtain d f w where
    inner: "rewriter_loop env p recs None None ws = Inr (d, f, w)"
    by (auto simp: item split: sum.splits)
  from rewriter_loop_result[OF inner]
  have d: "d = find is_default recs" and f: "f = find (valid_in env) recs" by simp_all
  show ?case
  proof (cases f)
    case (Some r)
    with Cons.prems inner have "records_loop env items dr (rs @ [(p, r)]) w = Inr (dr', rs', ws')"
      by (simp add: item)
    from Cons.IH[OF this] Some f show ?thesis
      by (simp add: item final_of_def default_of_def)
  next
    case None
    note fNone = None
    show ?thesis
    proof (cases d)
      case (Some r)
      with Cons.prems inner fNone
      have "records_loop env items (dr @ [(p, r)]) rs w = Inr (dr', rs', ws')"
        by (simp add: item)
      from Cons.IH[OF this] Some fNone f d show ?thesis
        by (simp add: item final_of_def default_of_def)
    next
      case None
      with Cons.prems inner fNone
      have "records_loop env items dr rs w = Inr (dr', rs', ws')"
        by (simp add: item)
      from Cons.IH[OF this] None fNone f d show ?thesis
        by (simp add: item final_of_def default_of_def)
    qed
  qed
qed

lemma records_loop_total:
  "checks_total env items \<Longrightarrow> \<exists>out. records_loop env items dr rs ws = Inr out"
proof (induction items arbitrary: dr rs ws)
  case Nil
  then show ?case by simp
next
  case (Cons item items)
  obtain p recs where item: "item = (p, recs)" by (cases item)
  from Cons.prems have here: "list_all (\<lambda>r. \<not> isl (all_checks env (checkers r))) recs"
    and rest: "checks_total env items"
    by (simp_all add: checks_total_def item)
  from rewriter_loop_total[OF here] obtain d f w where
    inner: "rewriter_loop env p recs None None ws = Inr (d, f, w)" by blast
  show ?case using inner Cons.IH[OF rest]
    by (simp add: item split: option.splits)
qed

lemma records_loop_warnings_mono:
  "records_loop env items dr rs ws = Inr (dr', rs', ws') \<Longrightarrow> set ws \<subseteq> set ws'"
proof (induction items arbitrary: dr rs ws)
  case Nil
  then show ?case by simp
next
  case (Cons item items)
  obtain p recs where item: "item = (p, recs)" by (cases item)
  from Cons.prems obtain d f w where
    inner: "rewriter_loop env p recs None None ws = Inr (d, f, w)"
    by (auto simp: item split: sum.splits)
  from Cons.prems inner obtain dr1 rs1 where
    "records_loop env items dr1 rs1 w = Inr (dr', rs', ws')"
    by (auto simp: item split: option.splits)
  from Cons.IH[OF this] rewriter_loop_warnings_mono[OF inner] show ?case by blast
qed

lemma records_loop_warns:
  "records_loop env items dr rs ws = Inr (dr', rs', ws') \<Longrightarrow>
     (p, recs) \<in> set items \<Longrightarrow> 2 \<le> length (filter (valid_in env) recs) \<Longrightarrow>
     final_warning p \<in> set ws'"
proof (induction items arbitrary: dr rs ws)
  case Nil
  then show ?case by simp
next
  case (Cons item items)
  obtain q qs where item: "item = (q, qs)" by (cases item)
  from Cons.prems(1) obtain d f w where
    inner: "rewriter_loop env q qs None None ws = Inr (d, f, w)"
    by (auto simp: item split: sum.splits)
  from Cons.prems(1) inner obtain dr1 rs1 where
    rest: "records_loop env items dr1 rs1 w = Inr (dr', rs', ws')"
    by (auto simp: item split: option.splits)
  show ?case
  proof (cases "(p, recs) = item")
    case True
    with inner item Cons.prems(3) have "final_warning p \<in> set w"
      using rewriter_loop_warns[of env q qs None None ws d f w] by simp
    with records_loop_warnings_mono[OF rest] show ?thesis by blast
  next
    case False
    with Cons.prems(2) have "(p, recs) \<in> set items" by simp
    from Cons.IH[OF rest this Cons.prems(3)] show ?thesis .
  qed
qed

lemma fst_default_of: "default_of env item = Some y \<Longrightarrow> fst y = fst item"
  by (auto simp: default_of_def split: if_splits)

lemma fst_final_of: "final_of env item = Some y \<Longrightarrow> fst y = fst item"
  by (auto simp: final_of_def)

lemma map_fst_map_filter:
  assumes "\<And>item y. g item = Some y \<Longrightarrow> fst y = fst item"
  shows "map fst (List.map_filter g items) = map fst (filter (\<lambda>i. g i \<noteq> None) items)"
proof (induction items)
  case Nil
  show ?case by simp
next
  case (Cons i items)
  then show ?case using assms[of i]
    by (cases "g i") auto
qed

lemma resolved_distinct:
  assumes "distinct (map fst items)"
  shows "distinct (map fst (List.map_filter (default_of env) items @
                            List.map_filter (final_of env) items))"
proof -
  have d: "map fst (List.map_filter (default_of env) items) =
           map fst (filter (\<lambda>i. default_of env i \<noteq> None) items)"
    by (rule map_fst_map_filter) (rule fst_default_of)
  have f: "map fst (List.map_filter (final_of env) items) =
           map fst (filter (\<lambda>i. final_of env i \<noteq> None) items)"
    by (rule map_fst_map_filter) (rule fst_final_of)
  have excl: "\<And>i. default_of env i \<noteq> None \<Longrightarrow> final_of env i = None"
    by (auto simp: default_of_def final_of_def split: if_splits)
  have inj: "inj_on fst (set items)"
    using assms by (simp add: distinct_map)
  have disj: "fst ` set (filter (\<lambda>i. default_of env i \<noteq> None) items) \<inter>
              fst ` set (filter (\<lambda>i. final_of env i \<noteq> None) items) = {}"
  proof (rule ccontr)
    assume "\<not> ?thesis"
    then obtain k where
      k1: "k \<in> fst ` set (filter (\<lambda>i. default_of env i \<noteq> None) items)" and
      k2: "k \<in> fst ` set (filter (\<lambda>i. final_of env i \<noteq> None) items)"
      by blast
    from k1 obtain a where a: "a \<in> set items" "default_of env a \<noteq> None" and ka: "k = fst a"
      by auto
    from k2 obtain b where b: "b \<in> set items" "final_of env b \<noteq> None" and kb: "k = fst b"
      by auto
    from ka kb have ab: "fst a = fst b" by simp
    from inj a(1) b(1) ab have "a = b" by (auto dest: inj_onD)
    with excl[OF a(2)] b(2) show False by simp
  qed
  show ?thesis
    using assms disj unfolding map_append d f
    by (simp add: distinct_map_filter)
qed

lemmas reg_eval = example_registry_def versioned_registry_def register_def Backend_DEFAULT_def IR_DEFAULT_def
  DAList.update.rep_eq DAList.empty.rep_eq DAList.lookup.rep_eq mk_func_def example_env_def
  get_records_def env_get_def default_warning_def final_warning_def

section \<open>Unregistering: remove\_record\<close>

lemma nonempty_lists_lookup:
  "nonempty_lists reg \<longleftrightarrow> (\<forall>k rs. DAList.lookup reg k = Some rs \<longrightarrow> rs \<noteq> [])"
proof
  assume "nonempty_lists reg"
  then show "\<forall>k rs. DAList.lookup reg k = Some rs \<longrightarrow> rs \<noteq> []"
    by (auto simp: nonempty_lists_def DAList.lookup.rep_eq list_all_iff dest!: map_of_SomeD)
next
  assume a: "\<forall>k rs. DAList.lookup reg k = Some rs \<longrightarrow> rs \<noteq> []"
  show "nonempty_lists reg"
    unfolding nonempty_lists_def list_all_iff
  proof
    fix item assume "item \<in> set (DAList.impl_of reg)"
    then have "DAList.lookup reg (fst item) = Some (snd item)"
      by (simp add: DAList.lookup.rep_eq)
    with a show "snd item \<noteq> []" by blast
  qed
qed

lemma pop_loop_ok:
  "\<forall>k. mset (pending_for k ks) \<subseteq># mset (stored_for reg k) \<Longrightarrow> nonempty_lists reg \<Longrightarrow>
     \<exists>reg'. pop_loop ks reg = Inr reg' \<and> nonempty_lists reg'"
proof (induction ks arbitrary: reg)
  case Nil
  then show ?case by simp
next
  case (Cons x ks)
  obtain key r where x: "x = (key, r)" by (cases x)
  from Cons.prems(1) have "mset (pending_for key (x # ks)) \<subseteq># mset (stored_for reg key)" by blast
  then have sub: "add_mset r (mset (pending_for key ks)) \<subseteq># mset (stored_for reg key)"
    by (simp add: pending_for_def x)
  then have rin: "r \<in> set (stored_for reg key)"
    by (metis insert_subset_eq_iff set_mset_mset)
  then obtain records where look: "DAList.lookup reg key = Some records" and rrec: "r \<in> set records"
    by (cases "DAList.lookup reg key") (auto simp: stored_for_def)
  from sub look have rest: "mset (pending_for key ks) \<subseteq># mset (remove1 r records)"
    by (simp add: stored_for_def insert_subset_eq_iff)
  let ?reg' = "if remove1 r records = [] then DAList.delete key reg
               else DAList.update key (remove1 r records) reg"
  have step: "pop_loop (x # ks) reg = pop_loop ks ?reg'"
    using look rrec by (simp add: x Let_def)
  have stored_key: "mset (pending_for key ks) \<subseteq># mset (stored_for ?reg' key)"
  proof (cases "remove1 r records = []")
    case True
    with rest have "pending_for key ks = []" by simp
    then show ?thesis by simp
  next
    case False
    then have "stored_for ?reg' key = remove1 r records" by (simp add: stored_for_def)
    with rest show ?thesis by simp
  qed
  have stored_other: "\<And>k. k \<noteq> key \<Longrightarrow> stored_for ?reg' k = stored_for reg k"
    by (simp add: stored_for_def)
  have pend_other: "\<And>k. k \<noteq> key \<Longrightarrow> pending_for k (x # ks) = pending_for k ks"
    by (simp add: pending_for_def x)
  have inv1: "\<forall>k. mset (pending_for k ks) \<subseteq># mset (stored_for ?reg' k)"
  proof
    fix k show "mset (pending_for k ks) \<subseteq># mset (stored_for ?reg' k)"
    proof (cases "k = key")
      case True
      with stored_key show ?thesis by simp
    next
      case False
      with Cons.prems(1) stored_other[OF False] pend_other[OF False] show ?thesis
        by metis
    qed
  qed
  have inv2: "nonempty_lists ?reg'"
    using Cons.prems(2) unfolding nonempty_lists_lookup
    by (auto simp: DAList.lookup_update split: if_splits)
  from Cons.IH[OF inv1 inv2] step show ?case by simp
qed

lemma pending_key_to_pop:
  "distinct (map fst items) \<Longrightarrow>
     pending_for k (key_to_pop obj cb items) =
       (case map_of items k of None \<Rightarrow> [] | Some rs \<Rightarrow> filter (to_pop obj cb) rs)"
proof (induction items)
  case Nil
  then show ?case by (simp add: pending_for_def)
next
  case (Cons item items)
  obtain key rs where item: "item = (key, rs)" by (cases item)
  have split: "pending_for k (key_to_pop obj cb (item # items)) =
      (if key = k then filter (to_pop obj cb) rs else []) @ pending_for k (key_to_pop obj cb items)"
    by (simp add: pending_for_def item filter_map o_def)
  show ?case
  proof (cases "key = k")
    case True
    with Cons.prems have "map_of items k = None"
      by (simp add: item map_of_eq_None_iff)
    with Cons.prems Cons.IH True split show ?thesis by (simp add: item)
  next
    case False
    with Cons.prems Cons.IH split show ?thesis by (simp add: item)
  qed
qed

lemma remove_matching:
  "\<forall>x\<in>set pre. \<not> P x \<Longrightarrow>
     foldl (\<lambda>acc r. remove1 r acc) (pre @ xs) (filter P xs) = pre @ filter (\<lambda>x. \<not> P x) xs"
proof (induction xs arbitrary: pre)
  case Nil
  then show ?case by simp
next
  case (Cons x xs)
  show ?case
  proof (cases "P x")
    case True
    with Cons.prems have "x \<notin> set pre" by blast
    then have "remove1 x (pre @ x # xs) = pre @ xs" by (simp add: remove1_append)
    with True Cons.IH[OF Cons.prems] show ?thesis by simp
  next
    case False
    with Cons.prems have "\<forall>y\<in>set (pre @ [x]). \<not> P y" by simp
    from Cons.IH[OF this] False show ?thesis by simp
  qed
qed

lemma pop_loop_step:
  assumes "pop_loop ((key, r) # ks) reg = Inr reg'"
  obtains records where "DAList.lookup reg key = Some records" "r \<in> set records"
    "pop_loop ks (if remove1 r records = [] then DAList.delete key reg
                  else DAList.update key (remove1 r records) reg) = Inr reg'"
  using assms by (auto simp: Let_def split: option.splits if_splits)

lemma pop_loop_None:
  "pop_loop ks reg = Inr reg' \<Longrightarrow> DAList.lookup reg k = None \<Longrightarrow> DAList.lookup reg' k = None"
proof (induction ks arbitrary: reg)
  case Nil
  then show ?case by simp
next
  case (Cons x ks)
  obtain key r where x: "x = (key, r)" by (cases x)
  from Cons.prems(1)[unfolded x] obtain records where
    look: "DAList.lookup reg key = Some records" and
    rest: "pop_loop ks (if remove1 r records = [] then DAList.delete key reg
                  else DAList.update key (remove1 r records) reg) = Inr reg'"
    by (rule pop_loop_step)
  from look Cons.prems(2) have ne: "k \<noteq> key" by auto
  with Cons.prems(2) have "DAList.lookup (if remove1 r records = [] then DAList.delete key reg
                  else DAList.update key (remove1 r records) reg) k = None"
    by (simp add: DAList.lookup_update)
  from Cons.IH[OF rest this] show ?case .
qed

lemma pop_loop_keys:
  "pop_loop ks reg = Inr reg' \<Longrightarrow>
     map fst (DAList.impl_of reg') =
       filter (\<lambda>k. DAList.lookup reg' k \<noteq> None) (map fst (DAList.impl_of reg))"
proof (induction ks arbitrary: reg)
  case Nil
  have "\<forall>k\<in>set (map fst (DAList.impl_of reg)). DAList.lookup reg k \<noteq> None"
    by (auto simp: DAList.lookup.rep_eq map_of_eq_None_iff)
  with Nil show ?case by simp
next
  case (Cons x ks)
  obtain key r where x: "x = (key, r)" by (cases x)
  from Cons.prems(1)[unfolded x] obtain records where
    look: "DAList.lookup reg key = Some records" and
    rest: "pop_loop ks (if remove1 r records = [] then DAList.delete key reg
                  else DAList.update key (remove1 r records) reg) = Inr reg'"
    by (rule pop_loop_step)
  from look have "(key, records) \<in> set (DAList.impl_of reg)"
    unfolding DAList.lookup.rep_eq by (rule map_of_SomeD)
  then have "fst (key, records) \<in> fst ` set (DAList.impl_of reg)" by (rule imageI)
  then have mem: "key \<in> set (map fst (DAList.impl_of reg))" by simp
  show ?case
  proof (cases "remove1 r records = []")
    case True
    with rest have rest': "pop_loop ks (DAList.delete key reg) = Inr reg'" by simp
    have "DAList.lookup (DAList.delete key reg) key = None" by simp
    from pop_loop_None[OF rest' this] have gone: "DAList.lookup reg' key = None" .
    have "map fst (DAList.impl_of (DAList.delete key reg)) =
            filter (\<lambda>k. k \<noteq> key) (map fst (DAList.impl_of reg))"
      by (simp add: DAList.delete.rep_eq delete_keys removeAll_filter_not_eq) metis
    with Cons.IH[OF rest'] have "map fst (DAList.impl_of reg') =
        filter (\<lambda>k. k \<noteq> key \<and> DAList.lookup reg' k \<noteq> None) (map fst (DAList.impl_of reg))"
      by simp
    also have "\<dots> = filter (\<lambda>k. DAList.lookup reg' k \<noteq> None) (map fst (DAList.impl_of reg))"
      using gone by (intro filter_cong refl) auto
    finally show ?thesis .
  next
    case False
    with rest have rest': "pop_loop ks (DAList.update key (remove1 r records) reg) = Inr reg'"
      by simp
    from mem have "map fst (DAList.impl_of (DAList.update key (remove1 r records) reg)) =
            map fst (DAList.impl_of reg)"
      by (simp add: DAList.update.rep_eq update_keys)
    with Cons.IH[OF rest'] show ?thesis by simp
  qed
qed

lemma pop_loop_lookup:
  "\<forall>k. mset (pending_for k ks) \<subseteq># mset (stored_for reg k) \<Longrightarrow> pop_loop ks reg = Inr reg' \<Longrightarrow>
     DAList.lookup reg' k =
       (case DAList.lookup reg k of None \<Rightarrow> None
        | Some rs \<Rightarrow>
            if pending_for k ks = [] then Some rs
            else if foldl (\<lambda>acc r. remove1 r acc) rs (pending_for k ks) = [] then None
            else Some (foldl (\<lambda>acc r. remove1 r acc) rs (pending_for k ks)))"
proof (induction ks arbitrary: reg)
  case Nil
  then show ?case by (simp add: pending_for_def split: option.splits)
next
  case (Cons x ks)
  obtain key r where x: "x = (key, r)" by (cases x)
  from Cons.prems(2)[unfolded x] obtain records where
    look: "DAList.lookup reg key = Some records" and rrec: "r \<in> set records" and
    rest: "pop_loop ks (if remove1 r records = [] then DAList.delete key reg
                  else DAList.update key (remove1 r records) reg) = Inr reg'"
    by (rule pop_loop_step)
  let ?reg' = "if remove1 r records = [] then DAList.delete key reg
               else DAList.update key (remove1 r records) reg"
  from Cons.prems(1) have "mset (pending_for key (x # ks)) \<subseteq># mset (stored_for reg key)" by blast
  then have sub: "add_mset r (mset (pending_for key ks)) \<subseteq># mset (stored_for reg key)"
    by (simp add: pending_for_def x)
  from sub look have restsub: "mset (pending_for key ks) \<subseteq># mset (remove1 r records)"
    by (simp add: stored_for_def insert_subset_eq_iff)
  have stored_key: "mset (pending_for key ks) \<subseteq># mset (stored_for ?reg' key)"
  proof (cases "remove1 r records = []")
    case True
    with restsub have "pending_for key ks = []" by simp
    then show ?thesis by simp
  next
    case False
    then have "stored_for ?reg' key = remove1 r records" by (simp add: stored_for_def)
    with restsub show ?thesis by simp
  qed
  have stored_other: "\<And>k. k \<noteq> key \<Longrightarrow> stored_for ?reg' k = stored_for reg k"
    by (simp add: stored_for_def)
  have pend_other: "\<And>k. k \<noteq> key \<Longrightarrow> pending_for k (x # ks) = pending_for k ks"
    by (simp add: pending_for_def x)
  have inv1: "\<forall>k. mset (pending_for k ks) \<subseteq># mset (stored_for ?reg' k)"
  proof
    fix k show "mset (pending_for k ks) \<subseteq># mset (stored_for ?reg' k)"
    proof (cases "k = key")
      case True
      with stored_key show ?thesis by simp
    next
      case False
      with Cons.prems(1) stored_other[OF False] pend_other[OF False] show ?thesis
        by metis
    qed
  qed
  note IH = Cons.IH[OF inv1 rest]
  show ?case
  proof (cases "k = key")
    case False
    then have "DAList.lookup ?reg' k = DAList.lookup reg k" by (simp add: DAList.lookup_update)
    with IH pend_other[OF False] show ?thesis by (simp split: option.splits)
  next
    case True
    have pend: "pending_for key (x # ks) = r # pending_for key ks"
      by (simp add: pending_for_def x)
    show ?thesis
    proof (cases "remove1 r records = []")
      case e: True
      with restsub have "pending_for key ks = []" by simp
      with IH e True look pend show ?thesis by simp
    next
      case ne: False
      then have "DAList.lookup ?reg' key = Some (remove1 r records)" by simp
      with IH True look pend ne show ?thesis by simp
    qed
  qed
qed

text \<open>
  Claim C10. \<open>remove_record\<close> keeps the invariant that no key of the table maps to an
  empty list. From a table with the invariant it returns (neither \<^verbatim>\<open>KeyError\<close> nor
  \<^verbatim>\<open>ValueError\<close> is raised) a table with the invariant, and the result is this one:
  under every key the records that were not to be removed, in their order; a key all
  of whose records were removed is no longer a key of the table (its list became empty
  and the key was popped); the keys that remain keep their order.
\<close>

theorem remove_record_keeps_lists_nonempty:
  assumes "nonempty_lists reg"
  shows "\<exists>reg'. remove_record obj filter_cb reg = Inr reg'
           \<and> nonempty_lists reg'
           \<and> (\<forall>k. DAList.lookup reg' k =
                 (case DAList.lookup reg k of None \<Rightarrow> None
                  | Some rs \<Rightarrow>
                      if filter (\<lambda>r. \<not> to_pop obj filter_cb r) rs = [] then None
                      else Some (filter (\<lambda>r. \<not> to_pop obj filter_cb r) rs)))
           \<and> map fst (DAList.impl_of reg') =
               filter (\<lambda>k. DAList.lookup reg' k \<noteq> None) (map fst (DAList.impl_of reg))"
proof -
  let ?ks = "key_to_pop obj filter_cb (DAList.impl_of reg)"
  have pend: "\<And>k. pending_for k ?ks =
      (case DAList.lookup reg k of None \<Rightarrow> [] | Some rs \<Rightarrow> filter (to_pop obj filter_cb) rs)"
    by (simp add: pending_key_to_pop DAList.lookup.rep_eq)
  have inv: "\<forall>k. mset (pending_for k ?ks) \<subseteq># mset (stored_for reg k)"
    by (auto simp: pend stored_for_def split: option.splits)
  from pop_loop_ok[OF inv assms] obtain reg' where
    res: "pop_loop ?ks reg = Inr reg'" and ne: "nonempty_lists reg'" by blast
  have look: "DAList.lookup reg' k =
       (case DAList.lookup reg k of None \<Rightarrow> None
        | Some rs \<Rightarrow>
            if filter (\<lambda>r. \<not> to_pop obj filter_cb r) rs = [] then None
            else Some (filter (\<lambda>r. \<not> to_pop obj filter_cb r) rs))" for k
  proof (cases "DAList.lookup reg k")
    case None
    with pop_loop_None[OF res None] show ?thesis by simp
  next
    case (Some rs)
    with assms have rs: "rs \<noteq> []" unfolding nonempty_lists_lookup by blast
    have fold: "foldl (\<lambda>acc r. remove1 r acc) rs (filter (to_pop obj filter_cb) rs) =
          filter (\<lambda>r. \<not> to_pop obj filter_cb r) rs"
      using remove_matching[of "[]" "to_pop obj filter_cb" rs] by simp
    have same: "filter (to_pop obj filter_cb) rs = [] \<Longrightarrow>
          filter (\<lambda>r. \<not> to_pop obj filter_cb r) rs = rs"
      by (simp add: filter_empty_conv filter_id_conv)
    from pop_loop_lookup[OF inv res, of k] Some rs fold same show ?thesis
      by (simp add: pend)
  qed
  from res ne look pop_loop_keys[OF res] show ?thesis
    by (simp add: remove_record_def)
qed

lemma lookup_mem: "DAList.lookup reg p = Some recs \<Longrightarrow> (p, recs) \<in> set (DAList.impl_of reg)"
proof -
  assume "DAList.lookup reg p = Some recs"
  then have "map_of (DAList.impl_of reg) p = Some recs" by (simp add: DAList.lookup.rep_eq)
  then show ?thesis by (rule map_of_SomeD)
qed

lemma get_records_result:
  assumes "get_records reg env = Inr (res, ws)"
  shows "res = List.map_filter (default_of env) (DAList.impl_of reg) @
               List.map_filter (final_of env) (DAList.impl_of reg)"
proof -
  from assms obtain dr rs where
    loop: "records_loop env (DAList.impl_of reg) [] [] [] = Inr (dr, rs, ws)" and
    res: "res = dr @ rs"
    by (auto simp: get_records_def split: sum.splits)
  from records_loop_result[OF loop] res show ?thesis by simp
qed

lemma get_records_total:
  assumes "checks_total env (DAList.impl_of reg)"
  shows "\<exists>res ws. get_records reg env = Inr (res, ws)"
proof -
  from records_loop_total[OF assms, of "[]" "[]" "[]"] obtain out where
    "records_loop env (DAList.impl_of reg) [] [] [] = Inr out" by blast
  then show ?thesis by (cases out) (simp add: get_records_def)
qed

lemma get_records_warns:
  assumes "get_records reg env = Inr (res, ws)"
    and "DAList.lookup reg p = Some recs"
    and "2 \<le> length (filter (valid_in env) recs)"
  shows "final_warning p \<in> set ws"
proof -
  from assms(1) obtain dr rs where
    loop: "records_loop env (DAList.impl_of reg) [] [] [] = Inr (dr, rs, ws)"
    by (auto simp: get_records_def split: sum.splits)
  from assms(2) have "(p, recs) \<in> set (DAList.impl_of reg)"
    by (rule lookup_mem)
  from records_loop_warns[OF loop this assms(3)] show ?thesis .
qed

lemma get_records_distinct:
  assumes "get_records reg env = Inr (res, ws)"
  shows "distinct (map fst res)"
  unfolding get_records_result[OF assms]
  by (rule resolved_distinct) simp

lemma only_entry:
  "distinct (map fst xs) \<Longrightarrow> (k, v) \<in> set xs \<Longrightarrow> filter (\<lambda>x. fst x = k) xs = [(k, v)]"
proof (induction xs)
  case Nil
  then show ?case by simp
next
  case (Cons x xs)
  show ?case
  proof (cases "x = (k, v)")
    case True
    with Cons.prems(1) have "k \<notin> fst ` set xs" by simp
    then have "\<forall>y\<in>set xs. fst y \<noteq> k" by auto
    then have "filter (\<lambda>x. fst x = k) xs = []" by (simp add: filter_empty_conv)
    with True show ?thesis by simp
  next
    case False
    with Cons.prems have in_xs: "(k, v) \<in> set xs" by simp
    then have "k \<in> fst ` set xs" by force
    with Cons.prems(1) have "fst x \<noteq> k" by auto
    with Cons.IH in_xs Cons.prems(1) show ?thesis by simp
  qed
qed

lemma final_in_result:
  assumes "get_records reg env = Inr (res, ws)"
    and "DAList.lookup reg p = Some recs"
    and "find (valid_in env) recs = Some c"
  shows "filter (\<lambda>x. fst x = p) res = [(p, c)]"
proof -
  from assms(2) have mem: "(p, recs) \<in> set (DAList.impl_of reg)"
    by (rule lookup_mem)
  have "final_of env (p, recs) = Some (p, c)"
    using assms(3) by (simp add: final_of_def)
  with mem have "(p, c) \<in> set (List.map_filter (final_of env) (DAList.impl_of reg))"
    unfolding List.map_filter_def set_map set_filter
    by (intro image_eqI[where x = "(p, recs)"]) simp_all
  then have "(p, c) \<in> set res"
    unfolding get_records_result[OF assms(1)] by simp
  with get_records_distinct[OF assms(1)] show ?thesis by (rule only_entry)
qed

lemma find_single:
  assumes "filter P xs = [c]" and "\<And>x. Q x \<Longrightarrow> P x" and "Q c"
  shows "find Q xs = Some c"
  using assms(1)
proof (induction xs)
  case Nil
  then show ?case by simp
next
  case (Cons x xs)
  show ?case
  proof (cases "P x")
    case True
    with Cons.prems have "x = c" by simp
    with assms(3) show ?thesis by simp
  next
    case False
    with assms(2) have "\<not> Q x" by blast
    with False Cons show ?thesis by simp
  qed
qed

lemma find_first_of_many:
  "1 \<le> length (filter P xs) \<Longrightarrow> \<exists>c. find P xs = Some c"
  by (induction xs) auto

lemma split_res:
  assumes "get_records reg env = Inr (res, ws)"
  shows "\<exists>ds ns. res = ds @ ns \<and> (\<forall>x\<in>set ds. checkers (snd x) = []) \<and>
                  (\<forall>x\<in>set ns. checkers (snd x) \<noteq> [])"
proof -
  let ?ds = "List.map_filter (default_of env) (DAList.impl_of reg)"
  let ?ns = "List.map_filter (final_of env) (DAList.impl_of reg)"
  have fd: "\<And>rs r. find is_default rs = Some r \<Longrightarrow> checkers r = []"
    by (auto simp: find_Some_iff is_default_def)
  have fv: "\<And>rs r. find (valid_in env) rs = Some r \<Longrightarrow> checkers r \<noteq> []"
    by (auto simp: find_Some_iff valid_in_def)
  have d: "\<forall>x\<in>set ?ds. checkers (snd x) = []"
  proof
    fix x assume "x \<in> set ?ds"
    then obtain item where "default_of env item = Some x"
      by (auto simp: List.map_filter_def)
    then obtain r where "find is_default (snd item) = Some r" "x = (fst item, r)"
      by (auto simp: default_of_def split: if_splits)
    with fd show "checkers (snd x) = []" by simp
  qed
  have n: "\<forall>x\<in>set ?ns. checkers (snd x) \<noteq> []"
  proof
    fix x assume "x \<in> set ?ns"
    then obtain item where "final_of env item = Some x"
      by (auto simp: List.map_filter_def)
    then obtain r where "find (valid_in env) (snd item) = Some r" "x = (fst item, r)"
      by (auto simp: final_of_def)
    with fv show "checkers (snd x) \<noteq> []" by simp
  qed
  from get_records_result[OF assms] d n show ?thesis by blast
qed

lemmas rec_eval = g_ncnn_def f_default_def f_tensorrt_def f_onnx_def h_default_def k_default_def
  k_tensorrt_def example_resolved_def

lemma example_get_records:
  "get_records example_registry example_env = Inr (example_resolved, [final_warning ''pkg.mod.f''])"
  by (simp add: reg_eval rec_eval)

lemma example_checks_total: "checks_total example_env (DAList.impl_of example_registry)"
  by (simp add: reg_eval checks_total_def)

lemma example_lookup_f:
  "DAList.lookup example_registry ''pkg.mod.f'' = Some [f_default, f_tensorrt, f_onnx]"
  by (simp add: reg_eval rec_eval)

lemma example_lookup_k:
  "DAList.lookup example_registry ''pkg.mod.k'' = Some [k_default, k_tensorrt]"
  by (simp add: reg_eval rec_eval)

text \<open>
  Claim C2. Whenever \<open>get_records\<close> returns, every function path occurs at most once in
  the returned list, which is the default-resolved part followed by the non-default one:
  the first components of the returned pairs are pairwise different, and for each path
  the list has one pair or none.
\<close>

theorem get_records_one_per_path:
  assumes "get_records reg env = Inr (res, ws)"
  shows "distinct (map fst res) \<and> (\<forall>p. length (filter (\<lambda>x. fst x = p) res) \<le> 1)"
proof
  show d: "distinct (map fst res)" using assms by (rule get_records_distinct)
  show "\<forall>p. length (filter (\<lambda>x. fst x = p) res) \<le> 1"
  proof
    fix p
    show "length (filter (\<lambda>x. fst x = p) res) \<le> 1"
    proof (cases "p \<in> fst ` set res")
      case True
      then obtain r where "(p, r) \<in> set res" by force
      from only_entry[OF d this] show ?thesis by simp
    next
      case False
      then have "filter (\<lambda>x. fst x = p) res = []"
        by (auto simp: filter_empty_conv)
      then show ?thesis by simp
    qed
  qed
qed

theorem get_records_one_per_path_witness:
  "get_records example_registry example_env = Inr (example_resolved, [final_warning ''pkg.mod.f''])
   \<and> distinct (map fst example_resolved)
   \<and> (\<forall>p. length (filter (\<lambda>x. fst x = p) example_resolved) \<le> 1)"
  using get_records_one_per_path[OF example_get_records] example_get_records by simp

text \<open>
  Claim C9. In the list returned by \<open>get_records\<close>, an entry resolved to a default
  candidate (empty checker list) stands before every entry resolved to a candidate with
  checkers: if position \<open>i\<close> holds a default and position \<open>j\<close> a non-default, \<open>i < j\<close>.
\<close>

theorem defaults_come_first:
  assumes "get_records reg env = Inr (res, ws)"
    and "i < length res" and "j < length res"
    and "checkers (snd (res ! i)) = []" and "checkers (snd (res ! j)) \<noteq> []"
  shows "i < j"
proof -
  from split_res[OF assms(1)] obtain ds ns where
    res: "res = ds @ ns" and
    ds: "\<forall>x\<in>set ds. checkers (snd x) = []" and
    ns: "\<forall>x\<in>set ns. checkers (snd x) \<noteq> []"
    by blast
  have i: "i < length ds"
  proof (rule ccontr)
    assume "\<not> i < length ds"
    with assms(2) res have "res ! i \<in> set ns"
      by (simp add: nth_append)
    with ns assms(4) show False by blast
  qed
  have j: "length ds \<le> j"
  proof (rule ccontr)
    assume "\<not> length ds \<le> j"
    with res have "res ! j \<in> set ds"
      by (simp add: nth_append)
    with ds assms(5) show False by blast
  qed
  from i j show ?thesis by simp
qed

theorem defaults_come_first_witness:
  "get_records example_registry example_env = Inr (example_resolved, [final_warning ''pkg.mod.f''])
   \<and> 0 < length example_resolved \<and> 1 < length example_resolved
   \<and> checkers (snd (example_resolved ! 0)) = []
   \<and> checkers (snd (example_resolved ! 1)) \<noteq> []
   \<and> (0::nat) < 1"
proof -
  have a: "0 < length example_resolved" and b: "1 < length example_resolved"
    and c: "checkers (snd (example_resolved ! 0)) = []"
    and d: "checkers (snd (example_resolved ! 1)) \<noteq> []"
    by (simp_all add: rec_eval)
  from defaults_come_first[OF example_get_records a b c d] example_get_records a b c d
  show ?thesis by simp
qed

text \<open>
  Claim C3, as amended. A missing key of the environment makes a checker raise
  \<^verbatim>\<open>KeyError\<close>, and then \<open>get_records\<close> returns nothing at all (the counterexample
  below). Provided no checker list of the registry raises in the environment: when a path
  has a default candidate \<open>d\<close> and \<open>c\<close> is its one candidate with checkers, and all
  checkers of \<open>c\<close> pass, \<open>get_records\<close> returns, its only entry for the path is \<open>c\<close>,
  and the default is not returned for it.
\<close>

theorem checker_candidate_beats_default:
  assumes "checks_total env (DAList.impl_of reg)"
    and "DAList.lookup reg path = Some rs"
    and "d \<in> set rs" and "checkers d = []"
    and "filter (\<lambda>r. checkers r \<noteq> []) rs = [c]"
    and "all_checks env (checkers c) = Inr True"
  shows "\<exists>res ws. get_records reg env = Inr (res, ws) \<and>
           filter (\<lambda>x. fst x = path) res = [(path, c)] \<and> (path, d) \<notin> set res"
proof -
  from get_records_total[OF assms(1)] obtain res ws where
    run: "get_records reg env = Inr (res, ws)" by blast
  from assms(5) have "c \<in> set (filter (\<lambda>r. checkers r \<noteq> []) rs)" by simp
  then have cc: "checkers c \<noteq> []" by simp
  have "find (valid_in env) rs = Some c"
  proof (rule find_single[OF assms(5)])
    show "\<And>x. valid_in env x \<Longrightarrow> checkers x \<noteq> []" by (simp add: valid_in_def)
    show "valid_in env c" using cc assms(6) by (simp add: valid_in_def)
  qed
  from final_in_result[OF run assms(2) this]
  have one: "filter (\<lambda>x. fst x = path) res = [(path, c)]" .
  have "(path, d) \<notin> set res"
  proof
    assume "(path, d) \<in> set res"
    then have "(path, d) \<in> set (filter (\<lambda>x. fst x = path) res)" by simp
    with one have "d = c" by simp
    with cc assms(4) show False by simp
  qed
  with run one show ?thesis by blast
qed

theorem checker_candidate_beats_default_witness:
  "checks_total example_env (DAList.impl_of example_registry)
   \<and> DAList.lookup example_registry ''pkg.mod.k'' = Some [k_default, k_tensorrt]
   \<and> k_default \<in> set [k_default, k_tensorrt] \<and> checkers k_default = []
   \<and> filter (\<lambda>r. checkers r \<noteq> []) [k_default, k_tensorrt] = [k_tensorrt]
   \<and> all_checks example_env (checkers k_tensorrt) = Inr True
   \<and> (\<exists>res ws. get_records example_registry example_env = Inr (res, ws) \<and>
         filter (\<lambda>x. fst x = ''pkg.mod.k'') res = [(''pkg.mod.k'', k_tensorrt)] \<and>
         (''pkg.mod.k'', k_default) \<notin> set res)"
proof -
  have a: "k_default \<in> set [k_default, k_tensorrt]" by simp
  have b: "checkers k_default = []" by (simp add: rec_eval)
  have c: "filter (\<lambda>r. checkers r \<noteq> []) [k_default, k_tensorrt] = [k_tensorrt]"
    by (simp add: rec_eval)
  have d: "all_checks example_env (checkers k_tensorrt) = Inr True"
    by (simp add: rec_eval reg_eval)
  from checker_candidate_beats_default[OF example_checks_total example_lookup_k a b c d]
    example_checks_total example_lookup_k a b c d
  show ?thesis by blast
qed

text \<open>
  Claim C3 as stated fails: path \<^verbatim>\<open>pkg.mod.k\<close> has a default and one candidate whose
  checker passes, but a candidate of another path reads the key \<^verbatim>\<open>foo\<close>, which the
  environment lacks, and the resolution ends in \<^verbatim>\<open>KeyError\<close>.
\<close>

theorem checker_candidate_counterexample:
  "DAList.lookup versioned_registry ''pkg.mod.k'' = Some [k_default, k_tensorrt]
   \<and> checkers k_default = [] \<and> checkers k_tensorrt \<noteq> []
   \<and> all_checks example_env (checkers k_tensorrt) = Inr True
   \<and> get_records versioned_registry example_env = Inl (KeyError ''foo'')"
  by (simp add: reg_eval rec_eval)

text \<open>
  Claim C4, as amended. Provided no checker list of the registry raises in the
  environment: when two or more candidates with checkers of one path are valid,
  \<open>get_records\<close> returns without error, its only entry for the path is the first valid
  candidate in registration order, and the warning about multiple valid rewriters for
  that path has been issued.
\<close>

theorem first_valid_candidate_wins:
  assumes "checks_total env (DAList.impl_of reg)"
    and "DAList.lookup reg path = Some rs"
    and "2 \<le> length (filter (valid_in env) rs)"
  shows "\<exists>res ws c. get_records reg env = Inr (res, ws) \<and>
           find (valid_in env) rs = Some c \<and>
           filter (\<lambda>x. fst x = path) res = [(path, c)] \<and>
           final_warning path \<in> set ws"
proof -
  from get_records_total[OF assms(1)] obtain res ws where
    run: "get_records reg env = Inr (res, ws)" by blast
  from assms(3) have "1 \<le> length (filter (valid_in env) rs)" by simp
  from find_first_of_many[OF this] obtain c where c: "find (valid_in env) rs = Some c" ..
  from final_in_result[OF run assms(2) c] get_records_warns[OF run assms(2) assms(3)] run c
  show ?thesis by blast
qed

theorem first_valid_candidate_wins_witness:
  "checks_total example_env (DAList.impl_of example_registry)
   \<and> DAList.lookup example_registry ''pkg.mod.f'' = Some [f_default, f_tensorrt, f_onnx]
   \<and> 2 \<le> length (filter (valid_in example_env) [f_default, f_tensorrt, f_onnx])
   \<and> (\<exists>res ws c. get_records example_registry example_env = Inr (res, ws) \<and>
         find (valid_in example_env) [f_default, f_tensorrt, f_onnx] = Some c \<and>
         filter (\<lambda>x. fst x = ''pkg.mod.f'') res = [(''pkg.mod.f'', c)] \<and>
         final_warning ''pkg.mod.f'' \<in> set ws)"
proof -
  have a: "2 \<le> length (filter (valid_in example_env) [f_default, f_tensorrt, f_onnx])"
    by (simp add: rec_eval reg_eval valid_in_def)
  from first_valid_candidate_wins[OF example_checks_total example_lookup_f a]
    example_checks_total example_lookup_f a
  show ?thesis by blast
qed

text \<open>
  Claim C4 as stated fails: two different candidates with checkers of \<^verbatim>\<open>pkg.mod.f\<close>
  are valid, and the resolution raises \<^verbatim>\<open>KeyError\<close> (for the key \<^verbatim>\<open>foo\<close> that a
  later path reads) instead of returning.
\<close>

theorem first_valid_candidate_counterexample:
  "DAList.lookup versioned_registry ''pkg.mod.f'' = Some [f_default, f_tensorrt, f_onnx]
   \<and> checkers f_tensorrt \<noteq> [] \<and> all_checks example_env (checkers f_tensorrt) = Inr True
   \<and> checkers f_onnx \<noteq> [] \<and> all_checks example_env (checkers f_onnx) = Inr True
   \<and> f_tensorrt \<noteq> f_onnx
   \<and> get_records versioned_registry example_env = Inl (KeyError ''foo'')"
  by (simp add: reg_eval rec_eval)

section \<open>The version checker\<close>

lemma lib_version_checker_missing_key:
  "env lib = None \<Longrightarrow> check (LibVersionChecker lib min_version max_version) env = Inl (KeyError lib)"
  by (simp add: env_get_def)

text \<open>
  Claim C5. The checker \<^verbatim>\<open>LibVersionChecker('foo', '1.8.0', '1.10.0')\<close> returns true
  when the environment reports version 1.9.0 for \<^verbatim>\<open>foo\<close>, false for 1.11.0 and for
  1.7.9, and false, not an error, when it reports \<^verbatim>\<open>None\<close> (not installed); whatever
  else the environment holds. (An environment without the key \<^verbatim>\<open>foo\<close> is another
  matter: see \<open>lib_version_checker_missing_key\<close>.)
\<close>

theorem lib_version_checker_range:
  "check (LibVersionChecker ''foo'' (Some ''1.8.0'') (Some ''1.10.0''))
     (env(''foo'' \<mapsto> StrVal ''1.9.0'')) = Inr True
   \<and> check (LibVersionChecker ''foo'' (Some ''1.8.0'') (Some ''1.10.0''))
     (env(''foo'' \<mapsto> StrVal ''1.11.0'')) = Inr False
   \<and> check (LibVersionChecker ''foo'' (Some ''1.8.0'') (Some ''1.10.0''))
     (env(''foo'' \<mapsto> StrVal ''1.7.9'')) = Inr False
   \<and> check (LibVersionChecker ''foo'' (Some ''1.8.0'') (Some ''1.10.0''))
     (env(''foo'' \<mapsto> NoneVal)) = Inr False"
  by (simp add: env_get_def below_min_def above_max_def parse_value_def version_parse_def
      strip_zeros_def digit_of_def)

theorem remove_record_witness:
  "nonempty_lists example_registry
   \<and> (\<exists>reg'. remove_record (mk_func 5 ''h__default'') None example_registry = Inr reg'
         \<and> nonempty_lists reg'
         \<and> DAList.lookup reg' ''pkg.mod.h'' = None
         \<and> DAList.lookup reg' ''pkg.mod.f'' = Some [f_default, f_tensorrt, f_onnx]
         \<and> map fst (DAList.impl_of reg') = [''pkg.mod.g'', ''pkg.mod.f'', ''pkg.mod.k''])"
proof -
  have a: "nonempty_lists example_registry"
    by (simp add: nonempty_lists_def reg_eval)
  from remove_record_keeps_lists_nonempty[OF a, of "mk_func 5 ''h__default''" None]
  obtain reg' where
    r: "remove_record (mk_func 5 ''h__default'') None example_registry = Inr reg'" and
    n: "nonempty_lists reg'" and
    l: "\<forall>k. DAList.lookup reg' k =
         (case DAList.lookup example_registry k of None \<Rightarrow> None
          | Some rs \<Rightarrow>
              if filter (\<lambda>r. \<not> to_pop (mk_func 5 ''h__default'') None r) rs = [] then None
              else Some (filter (\<lambda>r. \<not> to_pop (mk_func 5 ''h__default'') None r) rs))" and
    ks: "map fst (DAList.impl_of reg') =
          filter (\<lambda>k. DAList.lookup reg' k \<noteq> None) (map fst (DAList.impl_of example_registry))"
    by (elim exE conjE)
  have h: "DAList.lookup reg' ''pkg.mod.h'' = None"
    unfolding l[rule_format] by (simp add: reg_eval rec_eval to_pop_def)
  have f: "DAList.lookup reg' ''pkg.mod.f'' = Some [f_default, f_tensorrt, f_onnx]"
    unfolding l[rule_format] by (simp add: reg_eval rec_eval to_pop_def)
  have g: "DAList.lookup reg' ''pkg.mod.g'' \<noteq> None"
    unfolding l[rule_format] by (simp add: reg_eval rec_eval to_pop_def)
  have k: "DAList.lookup reg' ''pkg.mod.k'' \<noteq> None"
    unfolding l[rule_format] by (simp add: reg_eval rec_eval to_pop_def)
  have keys: "map fst (DAList.impl_of example_registry) =
      [''pkg.mod.g'', ''pkg.mod.f'', ''pkg.mod.h'', ''pkg.mod.k'']"
    by (simp add: reg_eval)
  have order: "map fst (DAList.impl_of reg') = [''pkg.mod.g'', ''pkg.mod.f'', ''pkg.mod.k'']"
    unfolding ks keys using h f g k by simp
  show ?thesis
    by (intro exI conjI) (rule a, rule r, rule n, rule h, rule f, rule order)
qed

lemma remove_last_record_pops_key:
  "map_sum id DAList.impl_of (remove_record (mk_func 5 ''h__default'') None example_registry) =
     Inr [(''pkg.mod.g'', [g_ncnn]), (''pkg.mod.f'', [f_default, f_tensorrt, f_onnx]),
          (''pkg.mod.k'', [k_default, k_tensorrt])]"
  by (simp add: remove_record_def reg_eval rec_eval to_pop_def DAList.delete.rep_eq)

section \<open>Contexts and the life cycle of the rewriter\<close>

lemma get_context_with_key_one:
  "func_contexts rw k = [c] \<Longrightarrow> get_context rw (Some k) caller = Inr (Some c, [])"
  by (simp add: get_context_def)

lemma find_app:
  "find P (xs @ ys) = (case find P xs of Some x \<Rightarrow> Some x | None \<Rightarrow> find P ys)"
  by (induction xs) auto

lemma found_last_match:
  "foldl (\<lambda>found tmp_ctx. if func tmp_ctx = f then Some tmp_ctx else found) start ctxs =
     (case find (\<lambda>c. func c = f) (rev ctxs) of Some c \<Rightarrow> Some c | None \<Rightarrow> start)"
proof (induction ctxs arbitrary: start)
  case Nil
  show ?case by simp
next
  case (Cons c ctxs)
  show ?case
    by (simp add: Cons.IH find_app split: option.splits)
qed

text \<open>
  Claim C6, as amended. It is with a key that \<open>get_context\<close> asserts: a key under which
  no context or more than one is registered is an assertion failure. Without a key the
  calling function is read from the frame, and when none of the contexts under its
  qualified name has it as \<open>func\<close>, a warning is logged and \<^verbatim>\<open>None\<close> is returned, no
  exception.
\<close>

theorem get_context_lookup:
  "(length (func_contexts rw k) \<noteq> 1 \<longrightarrow> get_context rw (Some k) caller = Inl AssertionError) \<and>
   (get_frame_func caller = Inr f \<and>
    list_all (\<lambda>c. func c \<noteq> f) (func_contexts rw (get_func_qualname f)) \<longrightarrow>
      get_context rw None caller = Inr (None, [context_warning (get_func_qualname f)]))"
proof (intro conjI impI)
  assume "length (func_contexts rw k) \<noteq> 1"
  then show "get_context rw (Some k) caller = Inl AssertionError"
    by (simp add: get_context_def)
next
  assume a: "get_frame_func caller = Inr f \<and>
    list_all (\<lambda>c. func c \<noteq> f) (func_contexts rw (get_func_qualname f))"
  then have "find (\<lambda>c. func c = f) (rev (func_contexts rw (get_func_qualname f))) = None"
    by (simp add: find_None_iff list_all_iff)
  with a show "get_context rw None caller = Inr (None, [context_warning (get_func_qualname f)])"
    by (simp add: get_context_def found_last_match Let_def)
qed

theorem get_context_lookup_witness:
  "length (func_contexts active_rewriter ''pkg.mod.f'') \<noteq> 1
   \<and> get_context active_rewriter (Some ''pkg.mod.f'') (caller_frame (mk_func 3 ''f__tensorrt''))
       = Inl AssertionError
   \<and> get_frame_func (caller_frame (mk_func 3 ''f__tensorrt'')) = Inr (mk_func 3 ''f__tensorrt'')
   \<and> list_all (\<lambda>c. func c \<noteq> mk_func 3 ''f__tensorrt'')
        (func_contexts active_rewriter (get_func_qualname (mk_func 3 ''f__tensorrt'')))
   \<and> get_context active_rewriter None (caller_frame (mk_func 3 ''f__tensorrt''))
       = Inr (None, [context_warning (get_func_qualname (mk_func 3 ''f__tensorrt''))])"
proof -
  have a: "length (func_contexts active_rewriter ''pkg.mod.f'') \<noteq> 1"
    by (simp add: active_rewriter_def init_def)
  have b: "get_frame_func (caller_frame (mk_func 3 ''f__tensorrt'')) = Inr (mk_func 3 ''f__tensorrt'')"
    by (simp add: get_frame_func_def caller_frame_def mk_func_def)
  have c: "list_all (\<lambda>c. func c \<noteq> mk_func 3 ''f__tensorrt'')
        (func_contexts active_rewriter (get_func_qualname (mk_func 3 ''f__tensorrt'')))"
    by (simp add: active_rewriter_def init_def get_func_qualname_def mk_func_def ctx_f_def ctx_k_def)
  from get_context_lookup[of active_rewriter "''pkg.mod.f''"
      "caller_frame (mk_func 3 ''f__tensorrt'')" "mk_func 3 ''f__tensorrt''"] a b c
  show ?thesis by simp
qed

text \<open>
  Claim C6 as stated fails in both halves. Without a key and with two contexts under the
  qualified name of the caller, the one whose \<open>func\<close> is the caller is returned; with
  none under it, \<^verbatim>\<open>None\<close> is returned with a warning: no assertion fails. With a key
  under which nothing is registered, the assertion fails: nothing is returned.
\<close>

theorem get_context_counterexample:
  "func_contexts active_rewriter (get_func_qualname (mk_func 206 ''f__tensorrt'')) = [ctx_f, ctx_k]
   \<and> get_context active_rewriter None (caller_frame (mk_func 206 ''f__tensorrt''))
       = Inr (Some ctx_k, [])
   \<and> func_contexts active_rewriter (get_func_qualname (mk_func 5 ''h__default'')) = []
   \<and> get_context active_rewriter None (caller_frame (mk_func 5 ''h__default''))
       = Inr (None, [context_warning ''rewrites.h__default''])
   \<and> func_contexts active_rewriter ''pkg.mod.h'' = []
   \<and> get_context active_rewriter (Some ''pkg.mod.h'') (caller_frame (mk_func 5 ''h__default''))
       = Inl AssertionError"
  by (simp add: get_context_def get_frame_func_def caller_frame_def mk_func_def
      active_rewriter_def init_def get_func_qualname_def ctx_f_def ctx_k_def)

lemma never_entered_init: "ori_fx_wrap_num init = None"
  by (simp add: init_def)

lemma never_entered_register:
  "ori_fx_wrap_num (register_rewriter name b i cs obj kw rw) = ori_fx_wrap_num rw"
  by (simp add: register_rewriter_def)

text \<open>
  Claim C7, as amended. \<open>exit\<close> on a rewriter that \<open>enter\<close> was never called on (the
  attribute \<^verbatim>\<open>_ori_fx_wrap_num\<close> does not exist) raises \<^verbatim>\<open>AttributeError\<close>; it logs
  nothing and leaves the rewriter and the store as they were.
\<close>

theorem exit_before_enter:
  "ori_fx_wrap_num rw = None \<Longrightarrow> exit rw w = Inl (AttributeError ''_ori_fx_wrap_num'', rw, w)"
  by (simp add: exit_def)

theorem exit_before_enter_witness:
  "ori_fx_wrap_num example_rewriter = None
   \<and> exit example_rewriter example_world
       = Inl (AttributeError ''_ori_fx_wrap_num'', example_rewriter, example_world)"
proof -
  have a: "ori_fx_wrap_num example_rewriter = None"
    by (simp add: example_rewriter_def never_entered_register init_def)
  from exit_before_enter[OF a] a show ?thesis by simp
qed

text \<open>
  Claim C7 as stated fails: on the rewriter that \<^verbatim>\<open>__init__\<close> returns, \<open>exit\<close> raises
  an exception, and the log of the store it leaves holds no warning.
\<close>

theorem exit_before_enter_counterexample:
  "exit init example_world = Inl (AttributeError ''_ori_fx_wrap_num'', init, example_world)
   \<and> log example_world = []"
  by (simp add: exit_def init_def example_world_def)

section \<open>Paths and cells\<close>

lemma split_on_not_Nil: "split_on sep s \<noteq> []"
  by (induction s) (auto split: list.splits)

lemma join_on_Cons: "xs \<noteq> [] \<Longrightarrow> join_on sep (x # xs) = x @ sep # join_on sep xs"
  by (cases xs) auto

lemma join_on_split_on: "join_on sep (split_on sep s) = s"
proof (induction s)
  case Nil
  show ?case by simp
next
  case (Cons c s)
  show ?case
  proof (cases "c = sep")
    case True
    with Cons show ?thesis by (simp add: join_on_Cons split_on_not_Nil)
  next
    case False
    obtain w ws where w: "split_on sep s = w # ws"
      using split_on_not_Nil[of sep s] by (cases "split_on sep s") auto
    with Cons have "join_on sep (w # ws) = s" by simp
    then have "join_on sep ((c # w) # ws) = c # s" by (cases ws) auto
    with False w show ?thesis by simp
  qed
qed

lemma join_on_butlast_last:
  "2 \<le> length xs \<Longrightarrow> join_on sep xs = join_on sep (butlast xs) @ sep # last xs"
proof (induction xs rule: join_on.induct)
  case (1 sep)
  then show ?case by simp
next
  case (2 sep x)
  then show ?case by simp
next
  case (3 sep x y ys)
  show ?case
  proof (cases ys)
    case Nil
    then show ?thesis by simp
  next
    case (Cons z zs)
    with 3 show ?thesis by simp
  qed
qed

lemma path_of_slot:
  assumes "2 \<le> length (split_on CHR ''.'' p)" and "slot_of p = (owner, Attr name)"
  shows "p = owner @ CHR ''.'' # name"
proof -
  have "p = join_on CHR ''.'' (split_on CHR ''.'' p)" by (simp add: join_on_split_on)
  also have "\<dots> = join_on CHR ''.'' (butlast (split_on CHR ''.'' p)) @ CHR ''.'' # last (split_on CHR ''.'' p)"
    using assms(1) by (rule join_on_butlast_last)
  finally show ?thesis using assms(2) by (simp add: slot_of_def)
qed

lemma slot_of_inj:
  assumes "2 \<le> length (split_on CHR ''.'' p)" and "2 \<le> length (split_on CHR ''.'' q)"
    and "slot_of p = slot_of q"
  shows "p = q"
proof -
  obtain owner name where s: "slot_of p = (owner, Attr name)"
    by (simp add: slot_of_def)
  from path_of_slot[OF assms(1) s] path_of_slot[OF assms(2)] s assms(3) show ?thesis by simp
qed

section \<open>One assignment, seen cell by cell\<close>

lemma replace_all_obj_apply:
  "replace_all_obj obj new_obj [] [''origin_func''] cs x =
     (case cs x of
        None \<Rightarrow> None
      | Some v \<Rightarrow> if v = obj \<and> \<not> ignored x then Some new_obj else Some v)"
  by (cases x; cases "snd x") (auto simp: replace_all_obj_def ignored_def split: option.splits key.splits)

lemma step_cells_apply:
  "step_cells p plain v cs x =
     (if x = p then Some v
      else (case cs x of
              None \<Rightarrow> None
            | Some u \<Rightarrow> if plain \<and> cs p = Some u \<and> \<not> ignored x then Some v else Some u))"
  by (auto simp: step_cells_def replace_all_obj_apply split: option.splits)

lemma step_cells_dom: "cs x \<noteq> None \<Longrightarrow> step_cells p plain v cs x \<noteq> None"
  by (auto simp: step_cells_apply split: option.splits)

lemma step_cells_at: "step_cells p plain v cs p = Some v"
  by (simp add: step_cells_apply)

lemma step_cells_values:
  "step_cells p plain v cs x = Some u \<Longrightarrow> u = v \<or> cs x = Some u"
  by (auto simp: step_cells_apply split: option.splits if_splits)

section \<open>What the two loops keep true\<close>

lemma rho_fresh:
  "distinct (map m_fresh ms) \<Longrightarrow> m \<in> set ms \<Longrightarrow> rho ms (m_fresh m) = m_orig m"
proof (induction ms)
  case Nil
  then show ?case by simp
next
  case (Cons a ms)
  then show ?case by (auto simp: rho_def)
qed

lemma rho_other: "\<forall>m\<in>set ms. m_fresh m \<noteq> v \<Longrightarrow> rho ms v = v"
proof -
  assume "\<forall>m\<in>set ms. m_fresh m \<noteq> v"
  then have "find (\<lambda>m. m_fresh m = v) ms = None" by (simp add: find_None_iff)
  then show ?thesis by (simp add: rho_def)
qed

lemma tgt_slot:
  "distinct (map m_slot ms) \<Longrightarrow> m \<in> set ms \<Longrightarrow> tgt ms cs0 (m_slot m) = Some (m_orig m)"
proof (induction ms)
  case Nil
  then show ?case by simp
next
  case (Cons a ms)
  then show ?case by (auto simp: tgt_def)
qed

lemma tgt_other: "\<forall>m\<in>set ms. m_slot m \<noteq> x \<Longrightarrow> tgt ms cs0 x = cs0 x"
proof -
  assume "\<forall>m\<in>set ms. m_slot m \<noteq> x"
  then have "find (\<lambda>m. m_slot m = x) ms = None" by (simp add: find_None_iff)
  then show ?thesis by (simp add: tgt_def)
qed

lemma rho_correct_step:
  assumes rc: "rho_correct ms cs0 cs"
    and t: "tgt ms cs0 p = Some (rho ms v)"
    and pl: "plain \<longrightarrow> cs p \<noteq> None"
  shows "rho_correct ms cs0 (step_cells p plain v cs)"
  unfolding rho_correct_def
proof (intro allI impI)
  fix x u
  assume a: "step_cells p plain v cs x = Some u"
  show "tgt ms cs0 x = Some (rho ms u)"
  proof (cases "x = p")
    case True
    with a t show ?thesis by (simp add: step_cells_apply)
  next
    case False
    from a False obtain u0 where u0: "cs x = Some u0"
      by (auto simp: step_cells_apply split: option.splits)
    from rc u0 have tx: "tgt ms cs0 x = Some (rho ms u0)" unfolding rho_correct_def by blast
    show ?thesis
    proof (cases "plain \<and> cs p = Some u0 \<and> \<not> ignored x")
      case True
      with a False u0 have "u = v" by (simp add: step_cells_apply)
      moreover from True rc have "tgt ms cs0 p = Some (rho ms u0)"
        unfolding rho_correct_def by blast
      ultimately show ?thesis using t tx by simp
    next
      case False
      with a \<open>x \<noteq> p\<close> u0 have "u = u0" by (auto simp: step_cells_apply)
      with tx show ?thesis by simp
    qed
  qed
qed

lemma anchored_step:
  assumes an: "anchored ms cs"
    and d: "distinct (map m_slot ms)"
    and mi: "mi \<in> set ms" and p: "p = m_slot mi" and pl: "plain = m_plain mi"
    and v: "(v = m_fresh mi \<and> (\<forall>x. cs x \<noteq> Some v)) \<or> (\<forall>m\<in>set ms. m_fresh m \<noteq> v)"
    and df: "distinct (map m_fresh ms)"
  shows "anchored ms (step_cells p plain v cs)"
  unfolding anchored_def
proof (intro ballI allI impI)
  fix m x
  assume m: "m \<in> set ms" and a: "step_cells p plain v cs x = Some (m_fresh m)"
  let ?cs' = "step_cells p plain v cs"
  show "x = m_slot m \<or> (m_plain m \<and> ?cs' (m_slot m) = Some (m_fresh m) \<and> \<not> ignored x)"
  proof (cases "m_fresh m = v")
    case True
    with v m have vf: "v = m_fresh mi" and absent: "\<forall>x. cs x \<noteq> Some v" by auto
    from True vf df m mi have "m = mi" by (simp add: distinct_map inj_on_def)
    show ?thesis
    proof (cases "x = p")
      case True
      with p \<open>m = mi\<close> show ?thesis by simp
    next
      case False
      from absent have "cs x \<noteq> Some v" by blast
      with a True False have "plain \<and> \<not> ignored x"
        by (auto simp: step_cells_apply split: option.splits if_splits)
      with \<open>m = mi\<close> p pl True show ?thesis by (simp add: step_cells_at)
    qed
  next
    case False
    from a False have xp: "x \<noteq> p" by (auto simp: step_cells_apply)
    from a False xp have old: "cs x = Some (m_fresh m)"
      by (auto simp: step_cells_apply split: option.splits if_splits)
    from a False xp old have norep: "\<not> (plain \<and> cs p = Some (m_fresh m) \<and> \<not> ignored x)"
      by (auto simp: step_cells_apply split: if_splits)
    from an m old have "x = m_slot m \<or> (m_plain m \<and> cs (m_slot m) = Some (m_fresh m) \<and> \<not> ignored x)"
      unfolding anchored_def by blast
    then show ?thesis
    proof
      assume "x = m_slot m"
      then show ?thesis by simp
    next
      assume b: "m_plain m \<and> cs (m_slot m) = Some (m_fresh m) \<and> \<not> ignored x"
      with norep have ne: "\<not> (plain \<and> cs p = Some (m_fresh m))" by simp
      have "m \<noteq> mi"
      proof
        assume "m = mi"
        with b p pl ne show False by simp
      qed
      with d m mi p have "m_slot m \<noteq> p" by (auto simp: distinct_map inj_on_def)
      with b ne have "?cs' (m_slot m) = Some (m_fresh m)"
        by (auto simp: step_cells_apply)
      with b show ?thesis by simp
    qed
  qed
qed

lemma gone_step_keeps:
  assumes "gone S cs" and "\<forall>m\<in>S. m_fresh m \<noteq> v"
  shows "gone S (step_cells p plain v cs)"
  using assms unfolding gone_def
  by (metis step_cells_values)

lemma gone_step_removes:
  assumes an: "anchored ms cs" and mi: "mi \<in> set ms"
    and nv: "m_fresh mi \<noteq> v"
  shows "\<forall>x. step_cells (m_slot mi) (m_plain mi) v cs x \<noteq> Some (m_fresh mi)"
proof (intro allI notI)
  fix x
  assume a: "step_cells (m_slot mi) (m_plain mi) v cs x = Some (m_fresh mi)"
  from a nv have xp: "x \<noteq> m_slot mi" by (auto simp: step_cells_apply)
  from a nv xp have old: "cs x = Some (m_fresh mi)"
    by (auto simp: step_cells_apply split: option.splits if_splits)
  from a nv xp old have norep: "\<not> (m_plain mi \<and> cs (m_slot mi) = Some (m_fresh mi) \<and> \<not> ignored x)"
    by (auto simp: step_cells_apply split: if_splits)
  from an mi old xp have "m_plain mi \<and> cs (m_slot mi) = Some (m_fresh mi) \<and> \<not> ignored x"
    unfolding anchored_def by blast
  with norep show False by simp
qed

section \<open>The installing and the restoring loop\<close>

lemma install_dom: "cs x \<noteq> None \<Longrightarrow> install todo cs x \<noteq> None"
proof (induction todo arbitrary: cs)
  case Nil
  then show ?case by simp
next
  case (Cons a todo)
  from Cons.prems have "step_cells (m_slot a) (m_plain a) (m_fresh a) cs x \<noteq> None"
    by (rule step_cells_dom)
  then have "install todo (step_cells (m_slot a) (m_plain a) (m_fresh a) cs) x \<noteq> None"
    by (rule Cons.IH)
  then show ?case by simp
qed

lemma restore_dom: "cs x \<noteq> None \<Longrightarrow> restore todo cs x \<noteq> None"
proof (induction todo arbitrary: cs)
  case Nil
  then show ?case by simp
next
  case (Cons a todo)
  from Cons.prems have "step_cells (m_slot a) (m_plain a) (m_orig a) cs x \<noteq> None"
    by (rule step_cells_dom)
  then have "restore todo (step_cells (m_slot a) (m_plain a) (m_orig a) cs) x \<noteq> None"
    by (rule Cons.IH)
  then show ?case by simp
qed

lemma install_slots: "m \<in> set todo \<Longrightarrow> install todo cs (m_slot m) \<noteq> None"
proof (induction todo arbitrary: cs)
  case Nil
  then show ?case by simp
next
  case (Cons a todo)
  show ?case
  proof (cases "m = a")
    case True
    have "step_cells (m_slot a) (m_plain a) (m_fresh a) cs (m_slot a) \<noteq> None"
      by (simp add: step_cells_at)
    then have "install todo (step_cells (m_slot a) (m_plain a) (m_fresh a) cs) (m_slot a) \<noteq> None"
      by (rule install_dom)
    with True show ?thesis by simp
  next
    case False
    with Cons show ?thesis by simp
  qed
qed

lemma restore_slots: "m \<in> set todo \<Longrightarrow> restore todo cs (m_slot m) \<noteq> None"
proof (induction todo arbitrary: cs)
  case Nil
  then show ?case by simp
next
  case (Cons a todo)
  show ?case
  proof (cases "m = a")
    case True
    have "step_cells (m_slot a) (m_plain a) (m_orig a) cs (m_slot a) \<noteq> None"
      by (simp add: step_cells_at)
    then have "restore todo (step_cells (m_slot a) (m_plain a) (m_orig a) cs) (m_slot a) \<noteq> None"
      by (rule restore_dom)
    with True show ?thesis by simp
  next
    case False
    with Cons show ?thesis by simp
  qed
qed

lemma install_values:
  "install todo cs x = Some v \<Longrightarrow> (\<exists>y. cs y = Some v) \<or> v \<in> m_fresh ` set todo"
proof (induction todo arbitrary: cs)
  case Nil
  then show ?case by (simp del: split_paired_Ex) blast
next
  case (Cons m todo)
  from Cons.prems
  have "install todo (step_cells (m_slot m) (m_plain m) (m_fresh m) cs) x = Some v" by simp
  from Cons.IH[OF this] show ?case
  proof
    assume "\<exists>y. step_cells (m_slot m) (m_plain m) (m_fresh m) cs y = Some v"
    then obtain y where "step_cells (m_slot m) (m_plain m) (m_fresh m) cs y = Some v" ..
    from step_cells_values[OF this] show ?thesis by (simp del: split_paired_Ex) blast
  next
    assume "v \<in> m_fresh ` set todo"
    then show ?thesis by simp
  qed
qed

lemma install_inv:
  assumes "wf_moves ms cs0" and "ms = done @ todo"
    and "rho_correct ms cs0 cs" and "keeps_dom cs0 cs" and "anchored ms cs"
    and "gone (set todo) cs"
  shows "rho_correct ms cs0 (install todo cs) \<and> keeps_dom cs0 (install todo cs) \<and>
         anchored ms (install todo cs)"
  using assms(2-)
proof (induction todo arbitrary: cs "done")
  case Nil
  then show ?case by simp
next
  case (Cons m todo)
  let ?cs' = "step_cells (m_slot m) (m_plain m) (m_fresh m) cs"
  from assms(1) have ds: "distinct (map m_slot ms)" and df: "distinct (map m_fresh ms)"
    and pl: "\<forall>m\<in>set ms. m_plain m \<longrightarrow> cs0 (m_slot m) \<noteq> None"
    by (simp_all add: wf_moves_def)
  from Cons.prems(1) have mi: "m \<in> set ms" by simp
  have t: "tgt ms cs0 (m_slot m) = Some (rho ms (m_fresh m))"
    using tgt_slot[OF ds mi] rho_fresh[OF df mi] by simp
  have p: "m_plain m \<longrightarrow> cs (m_slot m) \<noteq> None"
    using pl mi Cons.prems(3) unfolding keeps_dom_def by blast
  have rc: "rho_correct ms cs0 ?cs'"
    by (rule rho_correct_step[OF Cons.prems(2) t p])
  have kd: "keeps_dom cs0 ?cs'"
    unfolding keeps_dom_def
  proof (intro allI impI)
    fix x assume "cs0 x \<noteq> None"
    with Cons.prems(3) have "cs x \<noteq> None" unfolding keeps_dom_def by blast
    then show "?cs' x \<noteq> None" by (rule step_cells_dom)
  qed
  from Cons.prems(5) have absent: "\<forall>x. cs x \<noteq> Some (m_fresh m)"
    unfolding gone_def by simp
  have an: "anchored ms ?cs'"
    by (rule anchored_step[OF Cons.prems(4) ds mi refl refl _ df]) (use absent in blast)
  from df Cons.prems(1) have "distinct (map m_fresh (m # todo))" by simp
  then have nin: "m_fresh m \<notin> m_fresh ` set todo" by simp
  have "\<forall>m'\<in>set todo. m_fresh m' \<noteq> m_fresh m"
  proof
    fix m' assume "m' \<in> set todo"
    then have "m_fresh m' \<in> m_fresh ` set todo" by (rule imageI)
    with nin show "m_fresh m' \<noteq> m_fresh m" by auto
  qed
  moreover from Cons.prems(5) have "gone (set todo) cs" unfolding gone_def by simp
  ultimately have g: "gone (set todo) ?cs'" by (rule gone_step_keeps[rotated])
  have "ms = (done @ [m]) @ todo" using Cons.prems(1) by simp
  from Cons.IH[OF this rc kd an g] show ?case by simp
qed

lemma restore_inv:
  assumes "wf_moves ms cs0" and "ms = done @ todo"
    and "rho_correct ms cs0 cs" and "keeps_dom cs0 cs" and "anchored ms cs"
    and "gone (set done) cs"
  shows "rho_correct ms cs0 (restore todo cs) \<and> keeps_dom cs0 (restore todo cs) \<and>
         gone (set ms) (restore todo cs)"
  using assms(2-)
proof (induction todo arbitrary: cs "done")
  case Nil
  then show ?case by simp
next
  case (Cons m todo)
  let ?cs' = "step_cells (m_slot m) (m_plain m) (m_orig m) cs"
  from assms(1) have ds: "distinct (map m_slot ms)" and df: "distinct (map m_fresh ms)"
    and pl: "\<forall>m\<in>set ms. m_plain m \<longrightarrow> cs0 (m_slot m) \<noteq> None"
    and fo: "\<forall>m\<in>set ms. \<forall>m'\<in>set ms. m_fresh m \<noteq> m_orig m'"
    by (simp_all add: wf_moves_def)
  from Cons.prems(1) have mi: "m \<in> set ms" by simp
  from fo mi have nf: "\<forall>m'\<in>set ms. m_fresh m' \<noteq> m_orig m" by blast
  have t: "tgt ms cs0 (m_slot m) = Some (rho ms (m_orig m))"
    using tgt_slot[OF ds mi] rho_other[OF nf] by simp
  have p: "m_plain m \<longrightarrow> cs (m_slot m) \<noteq> None"
    using pl mi Cons.prems(3) unfolding keeps_dom_def by blast
  have rc: "rho_correct ms cs0 ?cs'"
    by (rule rho_correct_step[OF Cons.prems(2) t p])
  have kd: "keeps_dom cs0 ?cs'"
    unfolding keeps_dom_def
  proof (intro allI impI)
    fix x assume "cs0 x \<noteq> None"
    with Cons.prems(3) have "cs x \<noteq> None" unfolding keeps_dom_def by blast
    then show "?cs' x \<noteq> None" by (rule step_cells_dom)
  qed
  have an: "anchored ms ?cs'"
    by (rule anchored_step[OF Cons.prems(4) ds mi refl refl _ df]) (use nf in blast)
  have "\<forall>m'\<in>set done. m_fresh m' \<noteq> m_orig m" using nf Cons.prems(1) by simp
  with Cons.prems(5) have g1: "gone (set done) ?cs'" by (rule gone_step_keeps)
  from nf mi have "m_fresh m \<noteq> m_orig m" by blast
  from gone_step_removes[OF Cons.prems(4) mi this]
  have g2: "\<forall>x. ?cs' x \<noteq> Some (m_fresh m)" .
  from g1 g2 have g: "gone (set (done @ [m])) ?cs'" unfolding gone_def by auto
  have "ms = (done @ [m]) @ todo" using Cons.prems(1) by simp
  from Cons.IH[OF this rc kd an g] show ?case by simp
qed

lemma rho_correct_init:
  assumes "wf_moves ms cs0"
  shows "rho_correct ms cs0 cs0"
  unfolding rho_correct_def
proof (intro allI impI)
  fix x v
  assume a: "cs0 x = Some v"
  from assms have "\<forall>m\<in>set ms. \<forall>x. cs0 x \<noteq> Some (m_fresh m)"
    unfolding wf_moves_def by blast
  with a have "\<forall>m\<in>set ms. m_fresh m \<noteq> v" by blast
  then have r: "rho ms v = v" by (rule rho_other)
  show "tgt ms cs0 x = Some (rho ms v)"
  proof (cases "find (\<lambda>m. m_slot m = x) ms")
    case None
    with a r show ?thesis by (simp add: tgt_def)
  next
    case (Some m)
    then have "m \<in> set ms" and "m_slot m = x"
      by (auto simp: find_Some_iff)
    with assms a have "v = m_orig m" unfolding wf_moves_def by blast
    with Some r show ?thesis by (simp add: tgt_def)
  qed
qed

lemma restore_install:
  assumes "wf_moves ms cs0"
  shows "restore ms (install ms cs0) = tgt ms cs0"
proof
  fix x
  let ?a = "install ms cs0" and ?r = "restore ms (install ms cs0)"
  from assms have g0: "gone (set ms) cs0" unfolding wf_moves_def gone_def by blast
  then have an0: "anchored ms cs0" unfolding anchored_def gone_def by blast
  have kd0: "keeps_dom cs0 cs0" by (simp add: keeps_dom_def)
  from install_inv[OF assms _ rho_correct_init[OF assms] kd0 an0 g0, of "[]"]
  have rc1: "rho_correct ms cs0 ?a" and kd1: "keeps_dom cs0 ?a" and an1: "anchored ms ?a"
    by simp_all
  have "gone (set []) ?a" by (simp add: gone_def)
  from restore_inv[OF assms _ rc1 kd1 an1 this]
  have rc: "rho_correct ms cs0 ?r" and kd: "keeps_dom cs0 ?r" and g: "gone (set ms) ?r"
    by simp_all
  show "?r x = tgt ms cs0 x"
  proof (cases "?r x")
    case (Some v)
    with g have "\<forall>m\<in>set ms. m_fresh m \<noteq> v" unfolding gone_def by blast
    then have "rho ms v = v" by (rule rho_other)
    moreover from rc Some have "tgt ms cs0 x = Some (rho ms v)"
      unfolding rho_correct_def by blast
    ultimately show ?thesis using Some by simp
  next
    case None
    with kd have c0: "cs0 x = None" unfolding keeps_dom_def by blast
    have "\<forall>m\<in>set ms. m_slot m \<noteq> x"
    proof
      fix m assume "m \<in> set ms"
      then have "?r (m_slot m) \<noteq> None" by (rule restore_slots)
      with None show "m_slot m \<noteq> x" by auto
    qed
    from tgt_other[OF this] c0 None show ?thesis by simp
  qed
qed

section \<open>Evaluating and assigning paths in the store\<close>

lemma import_prefixes_cong:
  "kinds w' = kinds w \<Longrightarrow> import_prefixes w' sp n = import_prefixes w sp n"
  by (induction n) (simp_all add: importable_def)

lemma lookup_attr_cong:
  assumes "kinds w' = kinds w" and "cells w' = cells w"
  shows "lookup_attr w' owner name = lookup_attr w owner name"
  unfolding lookup_attr_def assms by (rule refl)

lemma eval_path_cong:
  assumes "kinds w' = kinds w" and "cells w' = cells w"
  shows "eval_path w' p = eval_path w p"
  by (simp add: eval_path_def lookup_attr_cong[OF assms] import_prefixes_cong[OF assms(1)] Let_def)

lemma import_function_cong:
  assumes "kinds w' = kinds w" and "cells w' = cells w"
  shows "import_function w' p = import_function w p"
  unfolding import_function_def eval_path_cong[OF assms] is_class_def assms(1) by (rule refl)

lemma mro_lookup_in_cells:
  "mro_lookup cs mro name = Some v \<Longrightarrow> \<exists>c. cs (c, Attr name) = Some v"
  by (induction mro) (auto split: option.splits)

lemma mro_lookup_own:
  "cs (c, Attr name) = Some v \<Longrightarrow> mro_lookup cs (c # mro) name = Some v"
  by simp

lemma mro_lookup_mono:
  "\<forall>x. cs x \<noteq> None \<longrightarrow> cs' x \<noteq> None \<Longrightarrow> mro_lookup cs mro name \<noteq> None \<Longrightarrow>
     mro_lookup cs' mro name \<noteq> None"
proof (induction mro)
  case Nil
  then show ?case by simp
next
  case (Cons c mro)
  show ?case
  proof (cases "cs (c, Attr name)")
    case None
    with Cons.prems(2) have "mro_lookup cs mro name \<noteq> None" by simp
    from Cons.IH[OF Cons.prems(1) this] show ?thesis by (simp split: option.splits)
  next
    case (Some v)
    with Cons.prems(1) have "cs' (c, Attr name) \<noteq> None" by blast
    then show ?thesis by (auto split: option.splits)
  qed
qed

lemma function_of_descr_get [simp]: "function_of (descr_get v owner) = function_of v"
  by (cases v) simp_all

lemma eval_path_found:
  assumes "eval_path w p = Inr v"
  shows "2 \<le> length (split_on CHR ''.'' p)"
    and "import_prefixes w (split_on CHR ''.'' p) (length (split_on CHR ''.'' p))"
    and "kinds w (fst (slot_of p)) \<noteq> None"
    and "\<not> is_class w (fst (slot_of p)) \<Longrightarrow> cells w (slot_of p) = Some v"
    and "\<exists>x u. cells w x = Some u \<and> function_of u = function_of v"
    and "\<And>u. cells w (slot_of p) = Some u \<Longrightarrow>
           v = (if is_class w (fst (slot_of p)) then descr_get u (fst (slot_of p)) else u)"
proof -
  let ?sp = "split_on CHR ''.'' p"
  from assms show len: "2 \<le> length ?sp"
    by (auto simp: eval_path_def Let_def split: if_splits)
  from assms show "import_prefixes w ?sp (length ?sp)"
    by (auto simp: eval_path_def Let_def split: if_splits)
  from assms have look: "lookup_attr w (fst (slot_of p)) (last ?sp) = Inr v"
    by (auto simp: eval_path_def Let_def slot_of_def split: if_splits)
  then show "kinds w (fst (slot_of p)) \<noteq> None"
    by (auto simp: lookup_attr_def split: option.splits)
  show "cells w (slot_of p) = Some v" if nc: "\<not> is_class w (fst (slot_of p))"
  proof -
    from look nc have "cells w (fst (slot_of p), Attr (last ?sp)) = Some v"
      unfolding lookup_attr_def is_class_def by (auto split: option.splits kind.splits)
    then show ?thesis by (simp add: slot_of_def)
  qed
  have "\<exists>c u. cells w (c, Attr (last ?sp)) = Some u \<and> function_of u = function_of v"
  proof (cases "kinds w (fst (slot_of p))")
    case None
    with look show ?thesis by (simp add: lookup_attr_def)
  next
    case (Some k)
    show ?thesis
    proof (cases k)
      case Module
      with Some look show ?thesis
        by (auto simp: lookup_attr_def split: option.splits)
    next
      case (Class mro)
      with Some look obtain r where
        r: "mro_lookup (cells w) (fst (slot_of p) # mro) (last ?sp) = Some r"
        and v: "v = descr_get r (fst (slot_of p))"
        by (auto simp: lookup_attr_def split: option.splits)
      from mro_lookup_in_cells[OF r] obtain c where "cells w (c, Attr (last ?sp)) = Some r" ..
      with v show ?thesis by auto
    qed
  qed
  then show "\<exists>x u. cells w x = Some u \<and> function_of u = function_of v" by blast
  show "v = (if is_class w (fst (slot_of p)) then descr_get u (fst (slot_of p)) else u)"
    if "cells w (slot_of p) = Some u" for u
  proof -
    from that have "cells w (fst (slot_of p), Attr (last ?sp)) = Some u"
      by (simp add: slot_of_def)
    with look show ?thesis
      unfolding lookup_attr_def is_class_def by (auto split: option.splits kind.splits)
  qed
qed

lemma resolvable_mono:
  assumes "resolvable w p" and "kinds w' = kinds w"
    and "\<forall>x. cells w x \<noteq> None \<longrightarrow> cells w' x \<noteq> None"
  shows "resolvable w' p"
proof -
  let ?sp = "split_on CHR ''.'' p"
  from assms(1) obtain v where v: "eval_path w p = Inr v"
    by (cases "eval_path w p") (auto simp: resolvable_def)
  from v have len: "\<not> length ?sp < 2"
    and imp: "import_prefixes w ?sp (length ?sp)"
    and look: "lookup_attr w (join_on CHR ''.'' (butlast ?sp)) (last ?sp) = Inr v"
    by (auto simp: eval_path_def Let_def split: if_splits)
  have "\<not> isl (lookup_attr w' (join_on CHR ''.'' (butlast ?sp)) (last ?sp))"
  proof (cases "kinds w (join_on CHR ''.'' (butlast ?sp))")
    case None
    with look show ?thesis by (simp add: lookup_attr_def)
  next
    case (Some k)
    show ?thesis
    proof (cases k)
      case Module
      with Some look have "cells w (join_on CHR ''.'' (butlast ?sp), Attr (last ?sp)) \<noteq> None"
        by (auto simp: lookup_attr_def split: option.splits)
      with assms(3) have "cells w' (join_on CHR ''.'' (butlast ?sp), Attr (last ?sp)) \<noteq> None"
        by blast
      with Some Module assms(2) show ?thesis
        by (auto simp: lookup_attr_def split: option.splits)
    next
      case (Class mro)
      with Some look have
        "mro_lookup (cells w) (join_on CHR ''.'' (butlast ?sp) # mro) (last ?sp) \<noteq> None"
        by (auto simp: lookup_attr_def split: option.splits)
      from mro_lookup_mono[OF assms(3) this] Some Class assms(2) show ?thesis
        by (auto simp: lookup_attr_def split: option.splits)
    qed
  qed
  with len imp assms(2) show ?thesis
    by (simp add: resolvable_def eval_path_def Let_def import_prefixes_cong[OF assms(2)])
qed

lemma set_func_cells:
  assumes "resolvable w p"
  shows "set_func p v [] [''origin_func''] w =
           Inr (w\<lparr>cells := step_cells (slot_of p) (\<not> is_class w (fst (slot_of p))) v (cells w)\<rparr>)"
proof -
  let ?sp = "split_on CHR ''.'' p"
  from assms obtain cur where cur: "eval_path w p = Inr cur"
    by (cases "eval_path w p") (auto simp: resolvable_def)
  note f = eval_path_found[OF cur]
  show ?thesis
  proof (cases "is_class w (fst (slot_of p))")
    case True
    with cur f(1) show ?thesis
      by (simp add: set_func_def Let_def slot_of_def step_cells_def)
  next
    case False
    from f(4)[OF False] have "cells w (slot_of p) = Some cur" .
    with cur False show ?thesis
      by (simp add: set_func_def Let_def slot_of_def step_cells_def)
  qed
qed

section \<open>The loops over set\_func\<close>

lemma fits_step:
  assumes "fits w m"
  shows "fits (w\<lparr>cells := step_cells p plain v (cells w)\<rparr>) m"
proof -
  let ?w' = "w\<lparr>cells := step_cells p plain v (cells w)\<rparr>"
  have k: "kinds ?w' = kinds w" by simp
  have d: "\<forall>x. cells w x \<noteq> None \<longrightarrow> cells ?w' x \<noteq> None"
    by (simp add: step_cells_dom)
  from assms have "resolvable w (m_path m)" by (simp add: fits_def)
  from resolvable_mono[OF this k d] assms show ?thesis
    by (simp add: fits_def is_class_def)
qed

lemma set_loop_install:
  assumes "\<forall>m\<in>set ms. fits w m"
  shows "set_loop (map (\<lambda>m. (m_path m, m_fresh m)) ms) w = Inr (w\<lparr>cells := install ms (cells w)\<rparr>)"
  using assms
proof (induction ms arbitrary: w)
  case Nil
  show ?case by simp
next
  case (Cons m ms)
  let ?w' = "w\<lparr>cells := step_cells (m_slot m) (m_plain m) (m_fresh m) (cells w)\<rparr>"
  from Cons.prems have fm: "fits w m" by simp
  then have step: "set_func (m_path m) (m_fresh m) [] [''origin_func''] w = Inr ?w'"
    by (simp add: fits_def set_func_cells m_slot_def)
  from Cons.prems have "\<forall>m'\<in>set ms. fits ?w' m'" by (simp add: fits_step)
  from Cons.IH[OF this] step show ?case by simp
qed

lemma set_loop_restore:
  assumes "\<forall>m\<in>set ms. fits w m"
  shows "set_loop (map (\<lambda>m. (m_path m, m_orig m)) ms) w = Inr (w\<lparr>cells := restore ms (cells w)\<rparr>)"
  using assms
proof (induction ms arbitrary: w)
  case Nil
  show ?case by simp
next
  case (Cons m ms)
  let ?w' = "w\<lparr>cells := step_cells (m_slot m) (m_plain m) (m_orig m) (cells w)\<rparr>"
  from Cons.prems have fm: "fits w m" by simp
  then have step: "set_func (m_path m) (m_orig m) [] [''origin_func''] w = Inr ?w'"
    by (simp add: fits_def set_func_cells m_slot_def)
  from Cons.prems have "\<forall>m'\<in>set ms. fits ?w' m'" by (simp add: fits_step)
  from Cons.IH[OF this] step show ?case by simp
qed

lemma fits_dom:
  assumes "fits w m" and "kinds w' = kinds w"
    and "\<forall>x. cells w x \<noteq> None \<longrightarrow> cells w' x \<noteq> None"
  shows "fits w' m"
proof -
  from assms(1) have "resolvable w (m_path m)" by (simp add: fits_def)
  from resolvable_mono[OF this assms(2,3)] assms(1,2) show ?thesis
    by (simp add: fits_def is_class_def)
qed

section \<open>Deleting the additional functions\<close>

lemma del_loop_result:
  "del_loop w sp n =
     (case del_path w sp of
        None \<Rightarrow> w
      | Some w' \<Rightarrow> if import_prefixes w sp n then w' else w)"
  by (induction n) (auto split: option.splits)

lemma resolvable_other_del:
  assumes "resolvable w p" and "kinds w' = kinds w"
  shows "\<exists>v. eval_path w p = Inr v \<and> 2 \<le> length (split_on CHR ''.'' p)
           \<and> import_prefixes w' (split_on CHR ''.'' p) (length (split_on CHR ''.'' p))
           \<and> kinds w' (fst (slot_of p)) \<noteq> None"
proof -
  from assms(1) obtain v where v: "eval_path w p = Inr v"
    by (cases "eval_path w p") (auto simp: resolvable_def)
  note f = eval_path_found[OF v]
  from v f(1,2,3) assms(2) show ?thesis
    by (simp add: import_prefixes_cong[OF assms(2)])
qed

lemma del_func_cells_kinds:
  assumes "resolvable w0 p" and "kinds w = kinds w0"
  shows "del_func p w = w\<lparr>cells := (cells w)(slot_of p := None)\<rparr>"
proof -
  let ?sp = "split_on CHR ''.'' p"
  from resolvable_other_del[OF assms] have len: "2 \<le> length ?sp"
    and imp: "import_prefixes w ?sp (length ?sp)" and k: "kinds w (fst (slot_of p)) \<noteq> None"
    by auto
  show ?thesis
  proof (cases "cells w (slot_of p)")
    case None
    then have "del_path w ?sp = None"
      by (simp add: del_path_def Let_def slot_of_def)
    moreover from None have "(cells w)(slot_of p := None) = cells w" by auto
    ultimately show ?thesis by (simp add: del_func_def del_loop_result)
  next
    case (Some u)
    with len k have "del_path w ?sp = Some (w\<lparr>cells := (cells w)(slot_of p := None)\<rparr>)"
      by (simp add: del_path_def Let_def slot_of_def)
    with imp show ?thesis by (simp add: del_func_def del_loop_result)
  qed
qed

lemma del_all_cells:
  assumes "\<forall>p\<in>set ps. resolvable w0 p" and "kinds w = kinds w0"
  shows "foldl (\<lambda>w' func_path. del_func func_path w') w ps =
           w\<lparr>cells := (\<lambda>x. if x \<in> slot_of ` set ps then None else cells w x)\<rparr>"
  using assms
proof (induction ps arbitrary: w)
  case Nil
  show ?case by simp
next
  case (Cons p ps)
  let ?w' = "w\<lparr>cells := (cells w)(slot_of p := None)\<rparr>"
  from Cons.prems have "resolvable w0 p" by simp
  from del_func_cells_kinds[OF this Cons.prems(2)] have d: "del_func p w = ?w'" .
  have k: "kinds ?w' = kinds w0" using Cons.prems(2) by simp
  from Cons.prems(1) have "\<forall>p\<in>set ps. resolvable w0 p" by simp
  from Cons.IH[OF this k]
  have "foldl (\<lambda>w' func_path. del_func func_path w') ?w' ps =
          ?w'\<lparr>cells := (\<lambda>x. if x \<in> slot_of ` set ps then None else cells ?w' x)\<rparr>" .
  moreover have "(\<lambda>x. if x \<in> slot_of ` set ps then None else cells ?w' x) =
                 (\<lambda>x. if x \<in> slot_of ` set (p # ps) then None else cells w x)"
    by (rule ext) auto
  ultimately show ?case using d by simp
qed

lemma butlast_funpow: "(butlast ^^ n) (xs @ ys) = xs" if "n = length ys"
  using that
proof (induction n arbitrary: ys)
  case 0
  then show ?case by simp
next
  case (Suc n)
  then obtain zs z where ys: "ys = zs @ [z]" and "n = length zs"
    by (cases ys rule: rev_cases) auto
  with Suc.IH[of zs] show ?case
    by (simp add: funpow_swap1 butlast_append)
qed

section \<open>The moves of a call of enter\<close>

lemma plan_cong:
  assumes "kinds w' = kinds w" and "cells w' = cells w"
  shows "plan w' n res = plan w n res"
  by (induction res arbitrary: n) (simp_all add: import_function_cong[OF assms] split: sum.splits)

lemma import_function_found:
  assumes "import_function w p = Inr found"
  shows "eval_path w p = Inr (fst found)"
    and "(snd found = None) = (\<not> is_class w (fst (slot_of p)))"
    and "\<And>c. snd found = Some c \<Longrightarrow> c = fst (slot_of p)"
  using assms
  by (auto simp: import_function_def Let_def slot_of_def split: sum.splits if_splits)

lemma plan_paths: "set (map m_path (plan w n res)) \<subseteq> fst ` set res"
proof (induction res arbitrary: n)
  case Nil
  show ?case by simp
next
  case (Cons item res)
  show ?case
  proof (cases "import_function w (fst item)")
    case (Inl e)
    with Cons.IH[of n] show ?thesis by auto
  next
    case (Inr found)
    with Cons.IH[of "Suc (Suc n)"] show ?thesis by auto
  qed
qed

lemma plan_distinct_paths:
  "distinct (map fst res) \<Longrightarrow> distinct (map m_path (plan w n res))"
proof (induction res arbitrary: n)
  case Nil
  show ?case by simp
next
  case (Cons item res)
  from Cons.prems have d: "distinct (map fst res)" and nin: "fst item \<notin> fst ` set res"
    by simp_all
  show ?case
  proof (cases "import_function w (fst item)")
    case (Inl e)
    with Cons.IH[OF d, of n] show ?thesis by simp
  next
    case (Inr found)
    from plan_paths[of w "Suc (Suc n)" res] nin
    have "fst item \<notin> set (map m_path (plan w (Suc (Suc n)) res))" by blast
    with Inr Cons.IH[OF d, of "Suc (Suc n)"] show ?thesis by simp
  qed
qed

lemma plan_fits:
  "m \<in> set (plan w n res) \<Longrightarrow>
     fits w m \<and> eval_path w (m_path m) = Inr (m_orig m) \<and>
       n \<le> func_id (function_of (m_fresh m))"
proof (induction res arbitrary: n)
  case Nil
  then show ?case by simp
next
  case (Cons item res)
  show ?case
  proof (cases "import_function w (fst item)")
    case (Inl e)
    with Cons show ?thesis by simp
  next
    case (Inr found)
    note f = import_function_found[OF Inr]
    show ?thesis
    proof (cases "m \<in> set (plan w (Suc (Suc n)) res)")
      case True
      from Cons.IH[OF True] show ?thesis by simp
    next
      case False
      with Cons.prems Inr have m: "m = \<lparr>m_path = fst item, m_plain = (snd found = None),
           m_fresh = Function ((object (snd item))\<lparr>func_id := n, func_globals := Suc n\<rparr>),
           m_orig = fst found\<rparr>" by simp
      with f(1,2) show ?thesis
        by (simp add: fits_def resolvable_def m_slot_def)
    qed
  qed
qed

lemma plan_fresh_bound:
  "m \<in> set (plan w n res) \<Longrightarrow>
     func_id (function_of (m_fresh m)) < n + 2 * length (plan w n res)"
proof (induction res arbitrary: n)
  case Nil
  then show ?case by simp
next
  case (Cons item res)
  show ?case
  proof (cases "import_function w (fst item)")
    case (Inl e)
    with Cons show ?thesis by simp
  next
    case (Inr found)
    show ?thesis
    proof (cases "m \<in> set (plan w (Suc (Suc n)) res)")
      case True
      from Cons.IH[OF True] Inr show ?thesis by simp
    next
      case False
      with Cons.prems Inr have "func_id (function_of (m_fresh m)) = n" by auto
      with Inr show ?thesis by simp
    qed
  qed
qed

lemma plan_distinct_fresh: "distinct (map m_fresh (plan w n res))"
proof (induction res arbitrary: n)
  case Nil
  show ?case by simp
next
  case (Cons item res)
  show ?case
  proof (cases "import_function w (fst item)")
    case (Inl e)
    with Cons.IH[of n] show ?thesis by simp
  next
    case (Inr found)
    let ?g = "Function ((object (snd item))\<lparr>func_id := n, func_globals := Suc n\<rparr>)"
    have "?g \<notin> m_fresh ` set (plan w (Suc (Suc n)) res)"
    proof
      assume "?g \<in> m_fresh ` set (plan w (Suc (Suc n)) res)"
      then obtain m where m: "m \<in> set (plan w (Suc (Suc n)) res)" and g: "?g = m_fresh m"
        by blast
      from plan_fits[OF m] have "Suc (Suc n) \<le> func_id (function_of (m_fresh m))" by simp
      with g[symmetric] show False by simp
    qed
    with Inr Cons.IH[of "Suc (Suc n)"] show ?thesis by simp
  qed
qed

lemma plan_mem:
  "(p, r) \<in> set res \<Longrightarrow> import_function w p = Inr found \<Longrightarrow>
     \<exists>m\<in>set (plan w n res). m_path m = p \<and> m_plain m = (snd found = None) \<and>
        m_orig m = fst found"
proof (induction res arbitrary: n)
  case Nil
  then show ?case by simp
next
  case (Cons item res)
  show ?case
  proof (cases "item = (p, r)")
    case True
    with Cons.prems(2) show ?thesis by simp
  next
    case False
    with Cons.prems have in_res: "(p, r) \<in> set res" by simp
    show ?thesis
    proof (cases "import_function w (fst item)")
      case (Inl e)
      with Cons.IH[OF in_res Cons.prems(2), of n] show ?thesis by simp
    next
      case (Inr other)
      with Cons.IH[OF in_res Cons.prems(2), of "Suc (Suc n)"] show ?thesis by auto
    qed
  qed
qed

lemma plan_distinct_slots:
  assumes "distinct (map fst res)"
  shows "distinct (map m_slot (plan w n res))"
proof -
  let ?ms = "plan w n res"
  have "inj_on slot_of (set (map m_path ?ms))"
  proof (rule inj_onI)
    fix p q
    assume p: "p \<in> set (map m_path ?ms)" and q: "q \<in> set (map m_path ?ms)"
      and e: "slot_of p = slot_of q"
    from p obtain m where "m \<in> set ?ms" "p = m_path m" by auto
    with plan_fits[of m w n res] have "eval_path w p = Inr (m_orig m)" by simp
    then have lp: "2 \<le> length (split_on CHR ''.'' p)" by (rule eval_path_found(1))
    from q obtain m' where "m' \<in> set ?ms" "q = m_path m'" by auto
    with plan_fits[of m' w n res] have "eval_path w q = Inr (m_orig m')" by simp
    then have lq: "2 \<le> length (split_on CHR ''.'' q)" by (rule eval_path_found(1))
    from slot_of_inj[OF lp lq e] show "p = q" .
  qed
  with plan_distinct_paths[OF assms, of w n]
  have "distinct (map slot_of (map m_path ?ms))" by (subst distinct_map) simp
  then have "distinct (map (slot_of \<circ> m_path) ?ms)" by simp
  moreover have "m_slot = slot_of \<circ> m_path" by (rule ext) (simp add: m_slot_def)
  ultimately show ?thesis by simp
qed

lemma plan_wf:
  assumes "distinct (map fst res)" and "well_allocated w" and "next_id w \<le> n"
    and "\<forall>item\<in>set res. evaluates_to_stored w (fst item)"
  shows "wf_moves (plan w n res) (cells w)"
proof -
  let ?ms = "plan w n res"
  have old: "\<And>x v. cells w x = Some v \<Longrightarrow> func_id (function_of v) < n"
    using assms(2,3) unfolding well_allocated_def by fastforce
  have orig_old: "\<And>m. m \<in> set ?ms \<Longrightarrow> func_id (function_of (m_orig m)) < n"
  proof -
    fix m assume "m \<in> set ?ms"
    from plan_fits[OF this] have "eval_path w (m_path m) = Inr (m_orig m)" by simp
    from eval_path_found(5)[OF this] obtain x u where
      "cells w x = Some u" and "function_of u = function_of (m_orig m)" by blast
    with old[of x u] show "func_id (function_of (m_orig m)) < n" by simp
  qed
  have fresh_new: "\<And>m. m \<in> set ?ms \<Longrightarrow> n \<le> func_id (function_of (m_fresh m))"
    using plan_fits by blast
  have c3: "\<forall>m\<in>set ?ms. \<forall>m'\<in>set ?ms. m_fresh m \<noteq> m_orig m'"
  proof (intro ballI notI)
    fix m m' assume "m \<in> set ?ms" "m' \<in> set ?ms" "m_fresh m = m_orig m'"
    with fresh_new[of m] orig_old[of m'] show False by simp
  qed
  have c4: "\<forall>m\<in>set ?ms. \<forall>x. cells w x \<noteq> Some (m_fresh m)"
  proof (intro ballI allI notI)
    fix m x assume "m \<in> set ?ms" "cells w x = Some (m_fresh m)"
    with fresh_new[of m] old[of x "m_fresh m"] show False by simp
  qed
  have c5: "\<forall>m\<in>set ?ms. m_plain m \<longrightarrow> cells w (m_slot m) \<noteq> None"
  proof (intro ballI impI)
    fix m assume m: "m \<in> set ?ms" and pl: "m_plain m"
    from plan_fits[OF m] have e: "eval_path w (m_path m) = Inr (m_orig m)" and f: "fits w m"
      by simp_all
    from f pl have "\<not> is_class w (fst (slot_of (m_path m)))" by (simp add: fits_def m_slot_def)
    from eval_path_found(4)[OF e this] show "cells w (m_slot m) \<noteq> None"
      by (simp add: m_slot_def)
  qed
  have c6: "\<forall>m\<in>set ?ms. \<forall>v. cells w (m_slot m) = Some v \<longrightarrow> v = m_orig m"
  proof (intro ballI allI impI)
    fix m v assume m: "m \<in> set ?ms" and v: "cells w (m_slot m) = Some v"
    from plan_fits[OF m] have e: "eval_path w (m_path m) = Inr (m_orig m)" by simp
    from v have sv: "cells w (slot_of (m_path m)) = Some v" by (simp add: m_slot_def)
    from m plan_paths[of w n res] have "m_path m \<in> fst ` set res" by auto
    with assms(4) have "evaluates_to_stored w (m_path m)" by auto
    with sv have "eval_path w (m_path m) = Inr v" by (simp add: evaluates_to_stored_def)
    with e show "v = m_orig m" by simp
  qed
  from plan_distinct_slots[OF assms(1)] plan_distinct_fresh c3 c4 c5 c6
  show ?thesis unfolding wf_moves_def by blast
qed

section \<open>The first loop of enter\<close>

lemma enter_step_missing:
  "import_function w (fst item) = Inl e \<Longrightarrow>
     enter_step config kw item (vars, w) =
       Inr (vars, w\<lparr>log := log w @ [not_found_warning (fst item)]\<rparr>)"
  by (simp add: enter_step_def)

lemma accepted_Cons:
  "accepted kw (item # res) \<longleftrightarrow>
     \<not> list_ex (\<lambda>k. k \<in> set [''self'', ''func'', ''origin_func'', ''cfg''])
          (map fst (dict_update kw (kwargs (snd item)))) \<and> accepted kw res"
  by (simp add: accepted_def)

lemma enter_step_found:
  assumes "import_function w (fst item) = Inr found"
    and "\<not> list_ex (\<lambda>k. k \<in> set [''self'', ''func'', ''origin_func'', ''cfg''])
            (map fst (dict_update kw (kwargs (snd item))))"
  shows "\<exists>vars' w'. enter_step config kw item (vars, w) = Inr (vars', w') \<and>
           kinds w' = kinds w \<and> cells w' = cells w \<and> type_names w' = type_names w \<and>
           next_id w' = Suc (Suc (next_id w)) \<and>
           (\<exists>extra. wrapped_fns_to_patch w' = wrapped_fns_to_patch w @ extra) \<and>
           ev_origin_functions vars' = ev_origin_functions vars @ [(fst item, fst found)] \<and>
           ev_new_functions vars' = ev_new_functions vars @
             [(fst item,
               Function ((object (snd item))\<lparr>func_id := next_id w, func_globals := Suc (next_id w)\<rparr>))] \<and>
           ev_additional_functions vars' = ev_additional_functions vars @
             (if snd found \<noteq> None \<and> cells w (slot_of (fst item)) = None
                 \<and> last (split_on CHR ''.'' (fst item)) \<notin> set (type_names w)
              then [fst item] else [])"
proof -
  obtain origin origin_class where found: "found = (origin, origin_class)" by (cases found)
  have add: "(case origin_class of None \<Rightarrow> False
              | Some c \<Rightarrow> cells w (c, Attr (last (split_on CHR ''.'' (fst item)))) = None
                         \<and> last (split_on CHR ''.'' (fst item)) \<notin> set (type_names w)) =
             (origin_class \<noteq> None \<and> cells w (slot_of (fst item)) = None
              \<and> last (split_on CHR ''.'' (fst item)) \<notin> set (type_names w))"
  proof (cases origin_class)
    case None
    then show ?thesis by simp
  next
    case (Some c)
    with import_function_found(3)[OF assms(1), of c] found have "c = fst (slot_of (fst item))"
      by simp
    then have "(c, Attr (last (split_on CHR ''.'' (fst item)))) = slot_of (fst item)"
      by (simp add: slot_of_def)
    with Some show ?thesis by simp
  qed
  have fx: "\<And>f g w0. \<exists>extra. wrapped_fns_to_patch (fx_wrap_copied_fn f g w0) =
                                wrapped_fns_to_patch w0 @ extra"
    by (auto simp: fx_wrap_copied_fn_def split: option.splits)
  have fx_same: "\<And>f g w0. kinds (fx_wrap_copied_fn f g w0) = kinds w0 \<and>
                   cells (fx_wrap_copied_fn f g w0) = cells w0 \<and>
                   type_names (fx_wrap_copied_fn f g w0) = type_names w0 \<and>
                   next_id (fx_wrap_copied_fn f g w0) = next_id w0"
    by (auto simp: fx_wrap_copied_fn_def split: option.splits)
  show ?thesis
    using assms fx[of "object (snd item)"
        "(object (snd item))\<lparr>func_id := next_id w, func_globals := Suc (next_id w)\<rparr>"
        "w\<lparr>next_id := Suc (Suc (next_id w))\<rparr>"]
    by (simp add: enter_step_def found Let_def copy_function_def fx_same add[simplified]
        ContextCaller_init_def)
qed

lemma is_addition_cong:
  "cells w' = cells w \<Longrightarrow> type_names w' = type_names w \<Longrightarrow> is_addition w' = is_addition w"
  by (rule ext) (simp add: is_addition_def)

lemma enter_fold:
  "accepted kw res \<Longrightarrow>
   \<exists>vars' w'. enter_loop config kw res (vars, w) = Inr (vars', w') \<and>
     kinds w' = kinds w \<and> cells w' = cells w \<and> type_names w' = type_names w \<and>
     (\<exists>extra. wrapped_fns_to_patch w' = wrapped_fns_to_patch w @ extra) \<and>
     ev_origin_functions vars' = ev_origin_functions vars @
       map (\<lambda>m. (m_path m, m_orig m)) (plan w (next_id w) res) \<and>
     ev_new_functions vars' = ev_new_functions vars @
       map (\<lambda>m. (m_path m, m_fresh m)) (plan w (next_id w) res) \<and>
     ev_additional_functions vars' = ev_additional_functions vars @
       map m_path (filter (is_addition w) (plan w (next_id w) res)) \<and>
     next_id w' = next_id w + 2 * length (plan w (next_id w) res)"
proof (induction res arbitrary: vars w)
  case Nil
  show ?case by simp
next
  case (Cons item res)
  from Cons.prems have acc_item: "\<not> list_ex (\<lambda>k. k \<in> set [''self'', ''func'', ''origin_func'', ''cfg''])
          (map fst (dict_update kw (kwargs (snd item))))" and acc: "accepted kw res"
    by (simp_all add: accepted_Cons)
  show ?case
  proof (cases "import_function w (fst item)")
    case (Inl e)
    let ?w1 = "w\<lparr>log := log w @ [not_found_warning (fst item)]\<rparr>"
    have k: "kinds ?w1 = kinds w" and c: "cells w = cells w" "cells ?w1 = cells w"
      and t: "type_names ?w1 = type_names w" by simp_all
    from Cons.IH[OF acc, of vars ?w1] obtain vars' w' where
      r: "enter_loop config kw res (vars, ?w1) = Inr (vars', w')"
      and p: "kinds w' = kinds ?w1" "cells w' = cells ?w1" "type_names w' = type_names ?w1"
        "\<exists>extra. wrapped_fns_to_patch w' = wrapped_fns_to_patch ?w1 @ extra"
        "ev_origin_functions vars' = ev_origin_functions vars @
           map (\<lambda>m. (m_path m, m_orig m)) (plan ?w1 (next_id ?w1) res)"
        "ev_new_functions vars' = ev_new_functions vars @
           map (\<lambda>m. (m_path m, m_fresh m)) (plan ?w1 (next_id ?w1) res)"
        "ev_additional_functions vars' = ev_additional_functions vars @
           map m_path (filter (is_addition ?w1) (plan ?w1 (next_id ?w1) res))"
        "next_id w' = next_id ?w1 + 2 * length (plan ?w1 (next_id ?w1) res)"
      by blast
    from r Inl have "enter_loop config kw (item # res) (vars, w) = Inr (vars', w')"
      by (simp add: enter_step_missing)
    with p Inl show ?thesis
      by (simp add: plan_cong[OF k c(2)] is_addition_cong[OF c(2) t])
  next
    case (Inr found)
    from enter_step_found[OF Inr acc_item, of config vars] obtain vars1 w1 where
      s: "enter_step config kw item (vars, w) = Inr (vars1, w1)"
      and k: "kinds w1 = kinds w" and c: "cells w1 = cells w"
      and t: "type_names w1 = type_names w"
      and n: "next_id w1 = Suc (Suc (next_id w))"
      and x: "\<exists>extra. wrapped_fns_to_patch w1 = wrapped_fns_to_patch w @ extra"
      and o: "ev_origin_functions vars1 = ev_origin_functions vars @ [(fst item, fst found)]"
      and nw: "ev_new_functions vars1 = ev_new_functions vars @
             [(fst item,
               Function ((object (snd item))\<lparr>func_id := next_id w, func_globals := Suc (next_id w)\<rparr>))]"
      and a: "ev_additional_functions vars1 = ev_additional_functions vars @
             (if snd found \<noteq> None \<and> cells w (slot_of (fst item)) = None
                 \<and> last (split_on CHR ''.'' (fst item)) \<notin> set (type_names w)
              then [fst item] else [])"
      by blast
    from Cons.IH[OF acc, of vars1 w1] obtain vars' w' where
      r: "enter_loop config kw res (vars1, w1) = Inr (vars', w')"
      and p: "kinds w' = kinds w1" "cells w' = cells w1" "type_names w' = type_names w1"
        "\<exists>extra. wrapped_fns_to_patch w' = wrapped_fns_to_patch w1 @ extra"
        "ev_origin_functions vars' = ev_origin_functions vars1 @
           map (\<lambda>m. (m_path m, m_orig m)) (plan w1 (next_id w1) res)"
        "ev_new_functions vars' = ev_new_functions vars1 @
           map (\<lambda>m. (m_path m, m_fresh m)) (plan w1 (next_id w1) res)"
        "ev_additional_functions vars' = ev_additional_functions vars1 @
           map m_path (filter (is_addition w1) (plan w1 (next_id w1) res))"
        "next_id w' = next_id w1 + 2 * length (plan w1 (next_id w1) res)"
      by blast
    from r s have run: "enter_loop config kw (item # res) (vars, w) = Inr (vars', w')" by simp
    from x p(4) have grown: "\<exists>extra. wrapped_fns_to_patch w' = wrapped_fns_to_patch w @ extra"
      by auto
    let ?m0 = "\<lparr>m_path = fst item, m_plain = (snd found = None),
           m_fresh = Function ((object (snd item))\<lparr>func_id := next_id w, func_globals := Suc (next_id w)\<rparr>),
           m_orig = fst found\<rparr>"
    let ?rest = "plan w (Suc (Suc (next_id w))) res"
    have pl: "plan w (next_id w) (item # res) = ?m0 # ?rest" using Inr by simp
    have pl1: "plan w1 (next_id w1) res = ?rest" by (simp add: plan_cong[OF k c] n)
    have ad: "is_addition w ?m0 = (snd found \<noteq> None \<and> cells w (slot_of (fst item)) = None
                \<and> last (split_on CHR ''.'' (fst item)) \<notin> set (type_names w))"
      by (simp add: is_addition_def m_slot_def)
    show ?thesis
    proof (rule exI[of _ vars'], rule exI[of _ w'], intro conjI)
      show "enter_loop config kw (item # res) (vars, w) = Inr (vars', w')" by (rule run)
      show "kinds w' = kinds w" using p(1) k by simp
      show "cells w' = cells w" using p(2) c by simp
      show "type_names w' = type_names w" using p(3) t by simp
      show "\<exists>extra. wrapped_fns_to_patch w' = wrapped_fns_to_patch w @ extra" by (rule grown)
      show "ev_origin_functions vars' = ev_origin_functions vars @
              map (\<lambda>m. (m_path m, m_orig m)) (plan w (next_id w) (item # res))"
        unfolding pl p(5) pl1 o by simp
      show "ev_new_functions vars' = ev_new_functions vars @
              map (\<lambda>m. (m_path m, m_fresh m)) (plan w (next_id w) (item # res))"
        unfolding pl p(6) pl1 nw by simp
      show "ev_additional_functions vars' = ev_additional_functions vars @
              map m_path (filter (is_addition w) (plan w (next_id w) (item # res)))"
        unfolding pl p(7) pl1 a is_addition_cong[OF c t] by (simp add: ad)
      have "plan w1 (Suc (Suc (next_id w))) res = ?rest" by (simp add: plan_cong[OF k c])
      then show "next_id w' = next_id w + 2 * length (plan w (next_id w) (item # res))"
        unfolding pl p(8) n by simp
    qed
  qed
qed

section \<open>enter and exit as a whole\<close>

lemma enter_result:
  assumes "get_records (registry rw) env = Inr (res, ws)" and "accepted kw res"
  shows "\<exists>rw1 w1. enter rw w config env kw = Inr (rw1, w1) \<and>
           kinds w1 = kinds w \<and>
           cells w1 = install (plan w (next_id w) res) (cells w) \<and>
           (\<exists>extra. wrapped_fns_to_patch w1 = wrapped_fns_to_patch w @ extra) \<and>
           ori_fx_wrap_num rw1 = Some (length (wrapped_fns_to_patch w)) \<and>
           origin_functions rw1 = Some (map (\<lambda>m. (m_path m, m_orig m)) (plan w (next_id w) res)) \<and>
           additional_functions rw1 =
             Some (map m_path (filter (is_addition w) (plan w (next_id w) res))) \<and>
           next_id w1 = next_id w + 2 * length (plan w (next_id w) res)"
proof -
  let ?ms = "plan w (next_id w) res"
  let ?w0 = "w\<lparr>log := log w @ ws\<rparr>"
  let ?start = "\<lparr>ev_origin_functions = [], ev_additional_functions = [],
                  ev_new_functions = [], ev_func_contexts = (\<lambda>k. [])\<rparr>"
  have k0: "kinds ?w0 = kinds w" and c0: "cells ?w0 = cells w"
    and t0: "type_names ?w0 = type_names w" by simp_all
  from enter_fold[OF assms(2), of config ?start ?w0] obtain vars' w' where
    run: "enter_loop config kw res (?start, ?w0) = Inr (vars', w')"
    and k: "kinds w' = kinds ?w0" and c: "cells w' = cells ?w0"
    and x: "\<exists>extra. wrapped_fns_to_patch w' = wrapped_fns_to_patch ?w0 @ extra"
    and o: "ev_origin_functions vars' = ev_origin_functions ?start @
              map (\<lambda>m. (m_path m, m_orig m)) (plan ?w0 (next_id ?w0) res)"
    and n: "ev_new_functions vars' = ev_new_functions ?start @
              map (\<lambda>m. (m_path m, m_fresh m)) (plan ?w0 (next_id ?w0) res)"
    and a: "ev_additional_functions vars' = ev_additional_functions ?start @
              map m_path (filter (is_addition ?w0) (plan ?w0 (next_id ?w0) res))"
    and ni: "next_id w' = next_id ?w0 + 2 * length (plan ?w0 (next_id ?w0) res)"
    by blast
  have pl: "plan ?w0 (next_id ?w0) res = ?ms" by (simp add: plan_cong[OF k0 c0])
  have fit: "\<forall>m\<in>set ?ms. fits w' m"
  proof
    fix m assume "m \<in> set ?ms"
    from plan_fits[OF this] have "fits w m" by simp
    then show "fits w' m" by (rule fits_dom) (simp_all add: k c)
  qed
  from set_loop_install[OF fit] n pl
  have sl: "set_loop (ev_new_functions vars') w' = Inr (w'\<lparr>cells := install ?ms (cells w')\<rparr>)"
    by simp
  let ?rw1 = "rw\<lparr>func_contexts := ev_func_contexts vars',
                  ori_fx_wrap_num := Some (length (wrapped_fns_to_patch w)),
                  origin_functions := Some (ev_origin_functions vars'),
                  additional_functions := Some (ev_additional_functions vars')\<rparr>"
  have "enter rw w config env kw = Inr (?rw1, w'\<lparr>cells := install ?ms (cells w')\<rparr>)"
    using assms(1) run sl by (simp add: enter_def Let_def)
  moreover have "is_addition ?w0 = is_addition w" by (rule is_addition_cong) simp_all
  ultimately show ?thesis using k c x o a pl ni by simp
qed

lemma exit_result:
  assumes "ori_fx_wrap_num rw1 = Some (length old)"
    and "wrapped_fns_to_patch w1 = old @ extra"
    and "origin_functions rw1 = Some (map (\<lambda>m. (m_path m, m_orig m)) ms)"
    and "additional_functions rw1 = Some adds"
    and "\<forall>m\<in>set ms. fits w1 m"
    and "\<forall>p\<in>set adds. resolvable w0 p"
    and "kinds w1 = kinds w0"
  shows "exit rw1 w1 =
           Inr (rw1\<lparr>func_contexts := (\<lambda>k. [])\<rparr>,
                w1\<lparr>wrapped_fns_to_patch := old,
                   cells := (\<lambda>x. if x \<in> slot_of ` set adds then None
                                   else restore ms (cells w1) x)\<rparr>)"
proof -
  let ?w1 = "w1\<lparr>wrapped_fns_to_patch := old\<rparr>"
  have pop: "(butlast ^^ (length (wrapped_fns_to_patch w1) - length old)) (wrapped_fns_to_patch w1)
               = old"
    using assms(2) by (simp add: butlast_funpow)
  have fit: "\<forall>m\<in>set ms. fits ?w1 m"
  proof
    fix m assume "m \<in> set ms"
    with assms(5) have "fits w1 m" by blast
    then show "fits ?w1 m" by (rule fits_dom) simp_all
  qed
  from set_loop_restore[OF fit]
  have sl: "set_loop (map (\<lambda>m. (m_path m, m_orig m)) ms) ?w1 =
              Inr (?w1\<lparr>cells := restore ms (cells w1)\<rparr>)" by simp
  have k: "kinds (?w1\<lparr>cells := restore ms (cells w1)\<rparr>) = kinds w0" using assms(7) by simp
  have same: "(\<lambda>x. if x \<in> slot_of ` set adds then None
                    else cells (?w1\<lparr>cells := restore ms (cells w1)\<rparr>) x) =
              (\<lambda>x. if x \<in> slot_of ` set adds then None else restore ms (cells w1) x)"
    by (rule ext) simp
  from del_all_cells[OF assms(6) k]
  have dl: "foldl (\<lambda>w' func_path. del_func func_path w') (?w1\<lparr>cells := restore ms (cells w1)\<rparr>) adds
        = w1\<lparr>wrapped_fns_to_patch := old,
             cells := (\<lambda>x. if x \<in> slot_of ` set adds then None else restore ms (cells w1) x)\<rparr>"
    unfolding same by simp
  show ?thesis
    using assms(1,3,4) by (simp add: exit_def Let_def pop sl dl)
qed

section \<open>The round trip of enter and exit\<close>

lemma enter_then_exit:
  assumes "get_records (registry rw) env = Inr (res, ws)" and "accepted kw res"
  shows "\<exists>rw1 w1 rw2 w2. enter rw w config env kw = Inr (rw1, w1) \<and>
           exit rw1 w1 = Inr (rw2, w2) \<and>
           kinds w1 = kinds w \<and>
           cells w1 = install (plan w (next_id w) res) (cells w) \<and>
           additional_functions rw1 =
             Some (map m_path (filter (is_addition w) (plan w (next_id w) res))) \<and>
           kinds w2 = kinds w \<and>
           wrapped_fns_to_patch w2 = wrapped_fns_to_patch w \<and>
           cells w2 =
             (\<lambda>x. if x \<in> slot_of ` set (map m_path (filter (is_addition w) (plan w (next_id w) res)))
                  then None
                  else restore (plan w (next_id w) res)
                         (install (plan w (next_id w) res) (cells w)) x)"
proof -
  let ?ms = "plan w (next_id w) res"
  let ?adds = "map m_path (filter (is_addition w) ?ms)"
  from enter_result[OF assms, of w config] obtain rw1 w1 extra where
    en: "enter rw w config env kw = Inr (rw1, w1)"
    and k: "kinds w1 = kinds w" and c: "cells w1 = install ?ms (cells w)"
    and x: "wrapped_fns_to_patch w1 = wrapped_fns_to_patch w @ extra"
    and o: "ori_fx_wrap_num rw1 = Some (length (wrapped_fns_to_patch w))"
    and f: "origin_functions rw1 = Some (map (\<lambda>m. (m_path m, m_orig m)) ?ms)"
    and a: "additional_functions rw1 = Some ?adds"
    by blast
  have fit: "\<forall>m\<in>set ?ms. fits w1 m"
  proof
    fix m assume "m \<in> set ?ms"
    from plan_fits[OF this] have "fits w m" by simp
    then show "fits w1 m"
    proof (rule fits_dom)
      show "kinds w1 = kinds w" by (rule k)
      show "\<forall>x. cells w x \<noteq> None \<longrightarrow> cells w1 x \<noteq> None"
        unfolding c by (simp add: install_dom)
    qed
  qed
  have res_adds: "\<forall>p\<in>set ?adds. resolvable w p"
  proof
    fix p assume "p \<in> set ?adds"
    then obtain m where "m \<in> set ?ms" "p = m_path m" by auto
    with plan_fits[of m w "next_id w" res] show "resolvable w p" by (simp add: fits_def)
  qed
  from exit_result[OF o x f a fit res_adds k]
  have ex: "exit rw1 w1 =
           Inr (rw1\<lparr>func_contexts := (\<lambda>k. [])\<rparr>,
                w1\<lparr>wrapped_fns_to_patch := wrapped_fns_to_patch w,
                   cells := (\<lambda>x. if x \<in> slot_of ` set ?adds then None
                                   else restore ?ms (cells w1) x)\<rparr>)" .
  let ?w2 = "w1\<lparr>wrapped_fns_to_patch := wrapped_fns_to_patch w,
                   cells := (\<lambda>x. if x \<in> slot_of ` set ?adds then None
                                   else restore ?ms (cells w1) x)\<rparr>"
  have c2: "cells ?w2 = (\<lambda>x. if x \<in> slot_of ` set ?adds then None
                              else restore ?ms (install ?ms (cells w)) x)"
    unfolding c by simp
  show ?thesis
  proof (intro exI conjI)
    show "enter rw w config env kw = Inr (rw1, w1)" by (rule en)
    show "exit rw1 w1 = Inr (rw1\<lparr>func_contexts := (\<lambda>k. [])\<rparr>, ?w2)" by (rule ex)
    show "kinds w1 = kinds w" by (rule k)
    show "cells w1 = install ?ms (cells w)" by (rule c)
    show "additional_functions rw1 = Some ?adds" by (rule a)
    show "kinds ?w2 = kinds w" using k by simp
    show "wrapped_fns_to_patch ?w2 = wrapped_fns_to_patch w" by simp
    show "cells ?w2 = (\<lambda>x. if x \<in> slot_of ` set ?adds then None
                              else restore ?ms (install ?ms (cells w)) x)" by (rule c2)
  qed
qed

lemma additions_removed:
  assumes "wf_moves ms (cells w)" and "\<forall>m\<in>set ms. deletable w (m_path m)"
  shows "(\<lambda>x. if x \<in> slot_of ` set (map m_path (filter (is_addition w) ms)) then None
              else tgt ms (cells w) x) = cells w"
proof
  fix x
  let ?adds = "slot_of ` set (map m_path (filter (is_addition w) ms))"
  have adds: "?adds = m_slot ` {m \<in> set ms. is_addition w m}"
    by (auto simp: m_slot_def image_iff)
  show "(if x \<in> ?adds then None else tgt ms (cells w) x) = cells w x"
  proof (cases "x \<in> ?adds")
    case True
    with adds obtain m where "m \<in> set ms" "is_addition w m" "x = m_slot m" by auto
    with True show ?thesis by (simp add: is_addition_def)
  next
    case False
    show ?thesis
    proof (cases "find (\<lambda>m. m_slot m = x) ms")
      case None
      with False show ?thesis by (simp add: tgt_def)
    next
      case (Some m)
      then have m: "m \<in> set ms" and s: "m_slot m = x" by (auto simp: find_Some_iff)
      with False adds have "\<not> is_addition w m" by auto
      moreover from assms(2) m have "deletable w (m_path m)" by blast
      ultimately have na: "m_plain m \<or> cells w (m_slot m) \<noteq> None"
        by (auto simp: is_addition_def deletable_def m_slot_def split: option.splits)
      from assms(1) m have "m_plain m \<longrightarrow> cells w (m_slot m) \<noteq> None"
        unfolding wf_moves_def by blast
      with na s have "cells w x \<noteq> None" by auto
      then obtain v where v: "cells w x = Some v" by auto
      from assms(1) m have "\<forall>v. cells w (m_slot m) = Some v \<longrightarrow> v = m_orig m"
        unfolding wf_moves_def by blast
      with v s have "v = m_orig m" by simp
      with v Some False show ?thesis by (simp add: tgt_def)
    qed
  qed
qed

text \<open>
  The round trip on the paths it is right for. When the resolution returns, the store
  holds only objects created before the copies that \<open>enter\<close> makes, building the
  contexts raises for no record, and every resolved path evaluates to what its owner's
  dictionary holds and, when inherited by a class, is not a name of the metaclass, then
  \<open>enter\<close> followed by \<open>exit\<close> returns and leaves every cell of the store, and the
  list of \<^verbatim>\<open>torch.fx\<close>, as they were. A resolved path that does not evaluate is skipped
  by \<open>enter\<close>.
\<close>

lemma round_trip_restores_store:
  assumes "get_records (registry rw) env = Inr (res, ws)" and "well_allocated w"
    and "accepted kw res"
    and "\<forall>item\<in>set res. evaluates_to_stored w (fst item)"
    and "\<forall>item\<in>set res. deletable w (fst item)"
  shows "\<exists>rw1 w1 rw2 w2. enter rw w config env kw = Inr (rw1, w1) \<and>
           exit rw1 w1 = Inr (rw2, w2) \<and>
           kinds w2 = kinds w \<and> cells w2 = cells w \<and>
           wrapped_fns_to_patch w2 = wrapped_fns_to_patch w \<and>
           (\<forall>path. eval_path w2 path = eval_path w path)"
proof -
  let ?ms = "plan w (next_id w) res"
  from get_records_distinct[OF assms(1)] have "distinct (map fst res)" .
  from plan_wf[OF this assms(2) le_refl assms(4)] have wf: "wf_moves ?ms (cells w)" .
  have del: "\<forall>m\<in>set ?ms. deletable w (m_path m)"
  proof
    fix m assume "m \<in> set ?ms"
    with plan_paths[of w "next_id w" res] have "m_path m \<in> fst ` set res" by auto
    with assms(5) show "deletable w (m_path m)" by auto
  qed
  from enter_then_exit[OF assms(1,3), of w config] obtain rw1 w1 rw2 w2 where
    en: "enter rw w config env kw = Inr (rw1, w1)" and ex: "exit rw1 w1 = Inr (rw2, w2)"
    and k: "kinds w2 = kinds w" and x: "wrapped_fns_to_patch w2 = wrapped_fns_to_patch w"
    and c: "cells w2 =
             (\<lambda>x. if x \<in> slot_of ` set (map m_path (filter (is_addition w) ?ms)) then None
                  else restore ?ms (install ?ms (cells w)) x)"
    by blast
  from c have c': "cells w2 = cells w"
    unfolding restore_install[OF wf] additions_removed[OF wf del] .
  have e: "\<forall>path. eval_path w2 path = eval_path w path"
    by (intro allI) (rule eval_path_cong[OF k c'])
  show ?thesis
    by (intro exI conjI) (rule en, rule ex, rule k, rule c', rule x, rule e)
qed

lemma enter_keeps_well_allocated:
  assumes "get_records (registry rw) env = Inr (res, ws)" and "well_allocated w"
    and "accepted kw res"
    and "enter rw w config env kw = Inr (rw1, w1)"
  shows "well_allocated w1"
proof -
  let ?ms = "plan w (next_id w) res"
  from enter_result[OF assms(1,3), of w config] assms(4)
  have c: "cells w1 = install ?ms (cells w)"
    and n: "next_id w1 = next_id w + 2 * length ?ms"
    by auto
  show ?thesis
    unfolding well_allocated_def
  proof (intro allI impI)
    fix x v
    assume "cells w1 x = Some v"
    with c have "install ?ms (cells w) x = Some v" by simp
    from install_values[OF this] show "func_id (function_of v) < next_id w1"
    proof
      assume "\<exists>y. cells w y = Some v"
      then obtain y where "cells w y = Some v" ..
      with assms(2) have "func_id (function_of v) < next_id w" unfolding well_allocated_def by blast
      with n show ?thesis by simp
    next
      assume "v \<in> m_fresh ` set ?ms"
      then obtain m where "m \<in> set ?ms" and "v = m_fresh m" by blast
      with plan_fresh_bound[of m w "next_id w" res] n show ?thesis by simp
    qed
  qed
qed

section \<open>Additional functions\<close>

text \<open>
  A resolved path into a class whose own dictionary lacks the name, under a name that the
  metaclass does not define either, is recorded as an additional function: after
  \<open>enter\<close> the class holds the attribute itself and the path evaluates to it; after
  \<open>exit\<close> the class holds no such attribute any more.
\<close>

lemma inherited_name_added_then_deleted:
  assumes "get_records (registry rw) env = Inr (res, ws)" and "accepted kw res"
    and "(path, r) \<in> set res"
    and "import_function w path = Inr (f, Some c)"
    and "cells w (c, Attr (last (split_on CHR ''.'' path))) = None"
    and "last (split_on CHR ''.'' path) \<notin> set (type_names w)"
  shows "\<exists>rw1 w1 rw2 w2 adds g.
           enter rw w config env kw = Inr (rw1, w1) \<and>
           additional_functions rw1 = Some adds \<and> path \<in> set adds \<and>
           cells w1 (c, Attr (last (split_on CHR ''.'' path))) = Some g \<and>
           eval_path w1 path = Inr (descr_get g c) \<and>
           exit rw1 w1 = Inr (rw2, w2) \<and>
           cells w2 (c, Attr (last (split_on CHR ''.'' path))) = None"
proof -
  let ?ms = "plan w (next_id w) res"
  let ?adds = "map m_path (filter (is_addition w) ?ms)"
  from import_function_found(3)[OF assms(4), of c] have c: "c = fst (slot_of path)" by simp
  then have slot: "(c, Attr (last (split_on CHR ''.'' path))) = slot_of path"
    by (simp add: slot_of_def)
  from import_function_found(2)[OF assms(4)] have cls: "is_class w (fst (slot_of path))"
    by simp
  from plan_mem[OF assms(3,4), of "next_id w"] obtain m where
    m: "m \<in> set ?ms" and mp: "m_path m = path" and pl: "\<not> m_plain m" by auto
  from assms(5,6) pl mp have add: "is_addition w m"
    by (simp add: is_addition_def m_slot_def slot)
  with m have "m \<in> set (filter (is_addition w) ?ms)" by simp
  then have "m_path m \<in> set ?adds" by simp
  with mp have in_adds: "path \<in> set ?adds" by simp
  from enter_then_exit[OF assms(1,2), of w config] obtain rw1 w1 rw2 w2 where
    en: "enter rw w config env kw = Inr (rw1, w1)" and ex: "exit rw1 w1 = Inr (rw2, w2)"
    and k1: "kinds w1 = kinds w" and c1: "cells w1 = install ?ms (cells w)"
    and a1: "additional_functions rw1 = Some ?adds"
    and c2: "cells w2 = (\<lambda>x. if x \<in> slot_of ` set ?adds then None
                              else restore ?ms (install ?ms (cells w)) x)"
    by blast
  from install_slots[OF m, of "cells w"] mp c1 obtain g where
    g: "cells w1 (slot_of path) = Some g" by (auto simp: m_slot_def)
  from plan_fits[OF m] have "fits w m" by simp
  then have "fits w1 m"
  proof (rule fits_dom)
    show "kinds w1 = kinds w" by (rule k1)
    show "\<forall>x. cells w x \<noteq> None \<longrightarrow> cells w1 x \<noteq> None"
      unfolding c1 by (simp add: install_dom)
  qed
  with mp obtain v where v: "eval_path w1 path = Inr v"
    by (cases "eval_path w1 path") (auto simp: fits_def resolvable_def)
  from cls k1 have cls1: "is_class w1 (fst (slot_of path))" by (simp add: is_class_def)
  from eval_path_found(6)[OF v g] cls1 v c have ev: "eval_path w1 path = Inr (descr_get g c)"
    by simp
  from in_adds have "slot_of path \<in> slot_of ` set ?adds" by (rule imageI)
  with c2 have gone: "cells w2 (slot_of path) = None" by simp
  show ?thesis
    unfolding slot
    by (intro exI conjI) (rule en, rule a1, rule in_adds, rule g, rule ev, rule ex, rule gone)
qed

section \<open>enter and exit run on the example store\<close>

lemmas world_eval = example_world_def target_def import_function_def eval_path_def
  lookup_attr_def importable_def is_class_def Let_def

lemmas enter_eval = enter_def exit_def enter_step_def set_func_def del_func_def del_path_def
  copy_function_def fx_wrap_copied_fn_def ContextCaller_init_def dict_update_def
  get_func_qualname_def replace_all_obj_def register_rewriter_def init_def

lemma example_rewriter_records:
  "get_records (registry example_rewriter) example_env =
     Inr (rewriter_resolved, [final_warning ''pkg.mod.f''])"
  by (simp add: example_rewriter_def register_rewriter_def init_def reg_eval rec_eval
      rewriter_resolved_def m_default_def)

lemma init_records:
  "get_records (registry init_rewriter) example_env =
     Inr ([(''pkg.mod.Derived.__init__'',
            \<lparr>checkers = [], object = mk_func 20 ''init__default'', kwargs = []\<rparr>)], [])"
  by (simp add: init_rewriter_def register_rewriter_def init_def reg_eval)

lemma cm_records:
  "get_records (registry cm_rewriter) example_env =
     Inr ([(''pkg.mod.Base.cm'',
            \<lparr>checkers = [], object = mk_func 21 ''cm__default'', kwargs = []\<rparr>)], [])"
  by (simp add: cm_rewriter_def register_rewriter_def init_def reg_eval)

lemma sm_records:
  "get_records (registry sm_rewriter) example_env =
     Inr ([(''pkg.mod.Base.sm'',
            \<lparr>checkers = [], object = mk_func 23 ''sm__default'', kwargs = []\<rparr>)], [])"
  by (simp add: sm_rewriter_def register_rewriter_def init_def reg_eval)

lemma cfg_records:
  "get_records (registry cfg_rewriter) example_env =
     Inr ([(''pkg.mod.h'',
            \<lparr>checkers = [], object = mk_func 22 ''h__default'', kwargs = [(''cfg'', ''x'')]\<rparr>)], [])"
  by (simp add: cfg_rewriter_def register_rewriter_def init_def reg_eval)

text \<open>
  A method that \<^verbatim>\<open>Derived\<close> inherits under a name the metaclass does not define: the
  path is recorded as an additional function, the class holds the copy after \<open>enter\<close>
  and holds nothing under the name after \<open>exit\<close>.
\<close>

lemma inherited_method_added_then_deleted:
  "cells example_world (''pkg.mod.Derived'', Attr ''m'') = None
   \<and> (\<exists>rw1 w1 rw2 w2.
         enter example_rewriter example_world [] example_env [] = Inr (rw1, w1)
         \<and> additional_functions rw1 = Some [''pkg.mod.Derived.m'']
         \<and> cells w1 (''pkg.mod.Derived'', Attr ''m'') =
             Some (Function ((mk_func 9 ''m__default'')\<lparr>func_id := 202, func_globals := 203\<rparr>))
         \<and> exit rw1 w1 = Inr (rw2, w2)
         \<and> cells w2 (''pkg.mod.Derived'', Attr ''m'') = None)"
  by (simp add: enter_eval example_rewriter_records rewriter_resolved_def rec_eval m_default_def
      world_eval mk_func_def)

text \<open>
  A \<^verbatim>\<open>staticmethod\<close> as the target: the path evaluates to the function before and after,
  but the round trip leaves the function itself in the dictionary of the class, where the
  \<^verbatim>\<open>staticmethod\<close> was.
\<close>

lemma staticmethod_left_unwrapped:
  "cells example_world (''pkg.mod.Base'', Attr ''sm'') = Some (StaticMethod (target 16 ''Base.sm''))
   \<and> eval_path example_world ''pkg.mod.Base.sm'' = Inr (Function (target 16 ''Base.sm''))
   \<and> (\<exists>rw1 w1 rw2 w2.
         enter sm_rewriter example_world [] example_env [] = Inr (rw1, w1)
         \<and> exit rw1 w1 = Inr (rw2, w2)
         \<and> cells w2 (''pkg.mod.Base'', Attr ''sm'') = Some (Function (target 16 ''Base.sm''))
         \<and> eval_path w2 ''pkg.mod.Base.sm'' = Inr (Function (target 16 ''Base.sm'')))"
  by (simp add: enter_eval sm_records world_eval mk_func_def)

text \<open>
  A keyword argument of a registration that has the name of a parameter of
  \<^verbatim>\<open>ContextCaller\<close>: \<open>enter\<close> raises \<^verbatim>\<open>TypeError\<close> in its first loop, the original
  already saved and the store untouched.
\<close>

lemma reserved_keyword_raises:
  "\<exists>rw1 w1. enter cfg_rewriter example_world [] example_env [] = Inl (TypeError, rw1, w1)
     \<and> cells w1 = cells example_world
     \<and> origin_functions rw1 = Some [(''pkg.mod.h'', Function (target 11 ''h''))]"
  by (simp add: enter_eval cfg_records world_eval mk_func_def)

text \<open>
  The rewriter of the four resolved paths, none of them a wrapped method or an inherited
  name of the metaclass: the round trip leaves the store as it was.
\<close>

lemma example_well_allocated: "well_allocated example_world"
  by (auto simp: well_allocated_def example_world_def target_def split: if_splits)

lemma example_accepted: "accepted [] rewriter_resolved"
  by (simp add: accepted_def rewriter_resolved_def rec_eval m_default_def dict_update_def)

lemma example_evaluates_to_stored:
  "\<forall>item\<in>set rewriter_resolved. evaluates_to_stored example_world (fst item)"
  by (simp add: rewriter_resolved_def evaluates_to_stored_def slot_of_def world_eval)

lemma example_deletable:
  "\<forall>item\<in>set rewriter_resolved. deletable example_world (fst item)"
  by (simp add: rewriter_resolved_def deletable_def slot_of_def example_world_def)

lemma example_round_trip:
  "\<exists>rw1 w1 rw2 w2. enter example_rewriter example_world [] example_env [] = Inr (rw1, w1) \<and>
     exit rw1 w1 = Inr (rw2, w2) \<and>
     kinds w2 = kinds example_world \<and> cells w2 = cells example_world \<and>
     wrapped_fns_to_patch w2 = wrapped_fns_to_patch example_world \<and>
     (\<forall>path. eval_path w2 path = eval_path example_world path)"
  by (rule round_trip_restores_store[OF example_rewriter_records example_well_allocated
        example_accepted example_evaluates_to_stored example_deletable])

section \<open>The claims about enter and exit\<close>

text \<open>
  Claim C1. \<open>enter\<close> followed by \<open>exit\<close> is to leave every path holding the callable
  it held before \<open>enter\<close>, whenever all resolved paths are found; the docstring of the
  class says that the rewriter recovers the target functions after exiting the context.
  The source does not do so for a target that is a \<^verbatim>\<open>classmethod\<close>. What \<open>enter\<close>
  saves is what the path evaluates to, a method bound to \<^verbatim>\<open>Base\<close>, and \<open>exit\<close> assigns
  that bound method to the class. On the store below, with the one rewrite registered
  for \<^verbatim>\<open>pkg.mod.Base.cm\<close>: both calls return; afterwards the dictionary of \<^verbatim>\<open>Base\<close>
  holds a bound method where it held the \<^verbatim>\<open>classmethod\<close>, and the path
  \<^verbatim>\<open>pkg.mod.Derived.cm\<close>, which evaluated to a method bound to \<^verbatim>\<open>Derived\<close>, evaluates
  to the method bound to \<^verbatim>\<open>Base\<close>. (For the paths that evaluate to what is stored,
  \<open>round_trip_restores_store\<close> shows the round trip.)
\<close>

theorem classmethod_not_restored:
  "cells example_world (''pkg.mod.Base'', Attr ''cm'') = Some (ClassMethod (target 15 ''Base.cm''))
   \<and> eval_path example_world ''pkg.mod.Base.cm'' =
       Inr (BoundMethod (target 15 ''Base.cm'') ''pkg.mod.Base'')
   \<and> eval_path example_world ''pkg.mod.Derived.cm'' =
       Inr (BoundMethod (target 15 ''Base.cm'') ''pkg.mod.Derived'')
   \<and> (\<exists>rw1 w1 rw2 w2.
         enter cm_rewriter example_world [] example_env [] = Inr (rw1, w1)
         \<and> exit rw1 w1 = Inr (rw2, w2)
         \<and> cells w2 (''pkg.mod.Base'', Attr ''cm'') =
             Some (BoundMethod (target 15 ''Base.cm'') ''pkg.mod.Base'')
         \<and> eval_path w2 ''pkg.mod.Derived.cm'' =
             Inr (BoundMethod (target 15 ''Base.cm'') ''pkg.mod.Base''))"
  by (simp add: enter_eval cm_records world_eval mk_func_def)

text \<open>
  Claim C8. A resolved path into a class whose own dictionary lacks the name (the lookup
  succeeds through inheritance only) is to be recorded as an additional function, the
  attribute to exist after \<open>enter\<close> and to be deleted by \<open>exit\<close>; the comment in
  \<open>enter\<close> says so (the function is a method and it is derived from base class). The
  test in the source, \<^verbatim>\<open>origin_class.__getattribute__(origin_class, function_name)\<close>,
  also finds the names that the metaclass defines, so it does not raise for an inherited
  \<^verbatim>\<open>__init__\<close>. On the store below, with the one rewrite registered for
  \<^verbatim>\<open>pkg.mod.Derived.__init__\<close>: the dictionary of \<^verbatim>\<open>Derived\<close> lacks the name and the
  path evaluates to the function of \<^verbatim>\<open>Base\<close>; \<open>enter\<close> records no additional
  function and assigns the copy; after \<open>exit\<close> the dictionary of \<^verbatim>\<open>Derived\<close> holds
  the function of \<^verbatim>\<open>Base\<close> under the name, which has not been deleted. (For the
  inherited names that the metaclass does not define,
  \<open>inherited_name_added_then_deleted\<close> shows what the claim says.)
\<close>

theorem inherited_init_stays_in_class:
  "cells example_world (''pkg.mod.Derived'', Attr ''__init__'') = None
   \<and> import_function example_world ''pkg.mod.Derived.__init__'' =
       Inr (Function (target 14 ''Base.__init__''), Some ''pkg.mod.Derived'')
   \<and> (\<exists>rw1 w1 rw2 w2.
         enter init_rewriter example_world [] example_env [] = Inr (rw1, w1)
         \<and> additional_functions rw1 = Some []
         \<and> cells w1 (''pkg.mod.Derived'', Attr ''__init__'') =
             Some (Function ((mk_func 20 ''init__default'')\<lparr>func_id := 200, func_globals := 201\<rparr>))
         \<and> exit rw1 w1 = Inr (rw2, w2)
         \<and> cells w2 (''pkg.mod.Derived'', Attr ''__init__'') =
             Some (Function (target 14 ''Base.__init__'')))"
  by (simp add: enter_eval init_records world_eval mk_func_def)

end
